theory Spec2Isabelle
  imports Complex_Main "HOL-Library.AList"
begin

section \<open>Strings, ordered maps and ordered sets of the runtime\<close>

text \<open>
  A JavaScript string is modelled as a \<^typ>\<open>string\<close>: one \<^typ>\<open>char\<close> per code unit,
  for code units below 256.  A \<open>Map\<close> is an association list in insertion order
  (\<open>Map.set\<close> on a present key replaces the value and keeps the position, which is
  \<^const>\<open>AList.update\<close>; \<open>Map.get\<close> is \<^const>\<open>map_of\<close>).  A \<open>Set\<close> that the
  program iterates is a list in insertion order.
\<close>

type_synonym ('k, 'v) js_map = "('k \<times> 'v) list"

definition has :: "('k, 'v) js_map \<Rightarrow> 'k \<Rightarrow> bool" where
  "has m k \<longleftrightarrow> map_of m k \<noteq> None"

definition set_add :: "'a list \<Rightarrow> 'a \<Rightarrow> 'a list" where
  "set_add s x = (if x \<in> set s then s else s @ [x])"

definition new_Set :: "'a list \<Rightarrow> 'a list" where
  "new_Set xs = foldl set_add [] xs"

text \<open>\<open>String.prototype.trim\<close>: the white space and line terminators below 256.\<close>

definition is_space :: "char \<Rightarrow> bool" where
  "is_space c \<longleftrightarrow> of_char c \<in> {9, 10, 11, 12, 13, 32, 160 :: nat}"

definition trim :: "string \<Rightarrow> string" where
  "trim s = rev (dropWhile is_space (rev (dropWhile is_space s)))"

text \<open>\<open>s.split(sep)\<close> for a one-character separator, and \<open>parts.join(sep)\<close>.\<close>

fun split :: "char \<Rightarrow> string \<Rightarrow> string list" where
  "split sep [] = [[]]"
| "split sep (c # cs) =
     (if c = sep then [] # split sep cs
      else (case split sep cs of s # ss \<Rightarrow> (c # s) # ss | [] \<Rightarrow> [[c]]))"

fun join :: "string \<Rightarrow> string list \<Rightarrow> string" where
  "join sep [] = []"
| "join sep [s] = s"
| "join sep (s # t # ts) = s @ sep @ join sep (t # ts)"

section \<open>Name/path resolver\<close>

text \<open>
  \<open>nameFromPath\<close>: \<open>path.split("/").pop() || path\<close> (the empty string is falsy), then the
  replacement of a final \<open>.md\<close> by nothing.
\<close>

definition strip_md :: "string \<Rightarrow> string" where
  "strip_md s = (if take 3 (rev s) = rev ''.md'' then rev (drop 3 (rev s)) else s)"

definition nameFromPath :: "string \<Rightarrow> string" where
  "nameFromPath p =
     (let basename = (if last (split CHR ''/'' p) = [] then p else last (split CHR ''/'' p))
      in strip_md basename)"

definition folderFromPath :: "string \<Rightarrow> string" where
  "folderFromPath p =
     (let parts = split CHR ''/'' p
      in if length parts > 1 then join ''/'' (butlast parts) else [])"

section \<open>Link parser\<close>

text \<open>
  The regular expression of \<open>parseWikilinks\<close> is
  \<^verbatim>\<open>\[\[([^\]|#]+)(?:[|#][^\]]+)?\]\]\<close> with the global flag.
  \<open>wikilink_at s\<close> is a match anchored at the head of \<open>s\<close>: group 1 and the input after
  the match.  Both character classes are followed by a character outside the class
  (\<open>]\<close>, or \<open>|\<close>/\<open>#\<close> then \<open>]\<close>), so only the longest run of each class can lead to a
  match and backtracking never finds another one.
\<close>

definition target_char :: "char \<Rightarrow> bool" where
  "target_char c \<longleftrightarrow> c \<noteq> CHR '']'' \<and> c \<noteq> CHR ''|'' \<and> c \<noteq> CHR ''#''"

definition alias_char :: "char \<Rightarrow> bool" where
  "alias_char c \<longleftrightarrow> c \<noteq> CHR '']''"

definition wikilink_at :: "string \<Rightarrow> (string \<times> string) option" where
  "wikilink_at s =
     (if take 2 s \<noteq> ''[['' then None
      else
        let s1 = drop 2 s;
            target = takeWhile target_char s1;
            s2 = dropWhile target_char s1
        in if target = [] then None
           else if take 2 s2 = '']]'' then Some (target, drop 2 s2)
           else if s2 \<noteq> [] \<and> (hd s2 = CHR ''|'' \<or> hd s2 = CHR ''#'') then
             (let s3 = tl s2;
                  alias = takeWhile alias_char s3;
                  s4 = dropWhile alias_char s3
              in if alias \<noteq> [] \<and> take 2 s4 = '']]'' then Some (target, drop 2 s4) else None)
           else None)"

lemma wikilink_at_shorter:
  "wikilink_at s = Some (t, rest) \<Longrightarrow> length rest < length s"
proof -
  have dw: "length (dropWhile P xs) \<le> length xs" for P and xs :: string
    by (induction xs) auto
  assume a: "wikilink_at s = Some (t, rest)"
  then have s2: "take 2 s = ''[[''"
    by (auto simp: wikilink_at_def split: if_splits)
  then have l2: "2 \<le> length s"
    by (cases s; cases "tl s") auto
  let ?s2 = "dropWhile target_char (drop 2 s)"
  let ?s4 = "dropWhile alias_char (tl ?s2)"
  have "length ?s2 \<le> length s - 2"
    using dw [of target_char "drop 2 s"] by simp
  moreover have "length ?s4 \<le> length ?s2"
    using dw [of alias_char "tl ?s2"] by simp
  moreover from a have "rest = drop 2 ?s2 \<or> rest = drop 2 ?s4"
    by (auto simp: wikilink_at_def Let_def split: if_splits)
  ultimately show ?thesis
    using l2 by auto
qed

text \<open>
  The \<open>exec\<close> loop: a match at the current position is recorded and the scan resumes
  after it; otherwise the scan moves one character on.
\<close>

function parseWikilinks :: "string \<Rightarrow> string list" where
  "parseWikilinks [] = []"
| "parseWikilinks (c # cs) =
     (case wikilink_at (c # cs) of
        Some (target, rest) \<Rightarrow> trim target # parseWikilinks rest
      | None \<Rightarrow> parseWikilinks cs)"
  by pat_completeness auto
termination
  by (relation "measure length") (auto dest: wikilink_at_shorter)

section \<open>Data model\<close>

record GraphNode =
  path :: string
  name :: string
  folder :: string
  tags :: "string list"
  hasContent :: bool

record Graph =
  nodes :: "(string, GraphNode) js_map"
  edges :: "(string, string list) js_map"
  reverseEdges :: "(string, string list) js_map"
  lastRefresh :: nat

definition initial_graph :: Graph where
  "initial_graph = \<lparr>nodes = [], edges = [], reverseEdges = [], lastRefresh = 0\<rparr>"

section \<open>Ingestion: \<open>buildGraph\<close>\<close>

text \<open>
  The content source (\<open>obsidian-api\<close>) is a listing that fails or returns the paths, and
  a read per path that fails or returns the body.  \<open>TypeError\<close> is what a call on the
  \<open>undefined\<close> result of \<open>Map.get\<close> raises.
\<close>

datatype error = Error string | TypeError

record ContentSource =
  listAllNotes :: "error + string list"
  readNote :: "string \<Rightarrow> error + string"

definition BATCH_SIZE :: nat where
  "BATCH_SIZE = 20"

text \<open>The settled results of one batch: only a fulfilled read is stored.\<close>

definition store_result :: "(string, string) js_map \<Rightarrow> string \<times> (error + string) \<Rightarrow> (string, string) js_map" where
  "store_result noteContents r =
     (case snd r of Inr content \<Rightarrow> AList.update (fst r) content noteContents
      | Inl e \<Rightarrow> noteContents)"

function read_batches :: "ContentSource \<Rightarrow> string list \<Rightarrow> nat \<Rightarrow> (string, string) js_map \<Rightarrow> (string, string) js_map" where
  "read_batches src paths i noteContents =
     (if i < length paths then
        let batch = take BATCH_SIZE (drop i paths);
            results = map (\<lambda>p. (p, readNote src p)) batch
        in read_batches src paths (i + BATCH_SIZE) (foldl store_result noteContents results)
      else noteContents)"
  by pat_completeness auto
termination
  by (relation "measure (\<lambda>(src, paths, i, nc). length paths - i)") (auto simp: BATCH_SIZE_def)

text \<open>
  One round of the node loop; \<open>make_node\<close> is the object it stores, with
  \<open>noteContents.get(path) || ""\<close> for the body.  \<open>parseTags\<close> is a parameter of the
  model: no property below depends on which tags a body yields.
\<close>

definition make_node :: "(string \<Rightarrow> string list) \<Rightarrow> (string, string) js_map \<Rightarrow> string \<Rightarrow> GraphNode" where
  "make_node parseTags noteContents p =
     (let content = (case map_of noteContents p of Some c \<Rightarrow> c | None \<Rightarrow> [])
      in \<lparr>path = p, name = nameFromPath p, folder = folderFromPath p, tags = parseTags content,
          hasContent = (length (trim content) > 0)\<rparr>)"

definition add_node ::
  "(string \<Rightarrow> string list) \<Rightarrow> (string, string) js_map \<Rightarrow>
   (string, GraphNode) js_map \<times> (string, string list) js_map \<times> (string, string list) js_map \<Rightarrow>
   string \<Rightarrow>
   (string, GraphNode) js_map \<times> (string, string list) js_map \<times> (string, string list) js_map" where
  "add_node parseTags noteContents st p =
     (case st of (newNodes, newEdges, newReverseEdges) \<Rightarrow>
        (AList.update (nameFromPath p) (make_node parseTags noteContents p) newNodes,
         AList.update (nameFromPath p) [] newEdges,
         AList.update (nameFromPath p) [] newReverseEdges))"

text \<open>
  One round of the inner edge loop.  \<open>newEdges.get(sourceName)!.add(target)\<close> raises when
  the entry is missing; the set stored under a key is changed in place.
\<close>

definition add_link ::
  "(string, GraphNode) js_map \<Rightarrow> string \<Rightarrow>
   (string, string list) js_map \<times> (string, string list) js_map \<Rightarrow> string \<Rightarrow>
   error + (string, string list) js_map \<times> (string, string list) js_map" where
  "add_link newNodes sourceName st target =
     (case st of (newEdges, newReverseEdges) \<Rightarrow>
        if has newNodes target then
          (case map_of newEdges sourceName of
             None \<Rightarrow> Inl TypeError
           | Some out \<Rightarrow>
               let newEdges' = AList.update sourceName (set_add out target) newEdges;
                   newReverseEdges' =
                     (if \<not> has newReverseEdges target then AList.update target [] newReverseEdges
                      else newReverseEdges)
               in (case map_of newReverseEdges' target of
                     None \<Rightarrow> Inl TypeError
                   | Some inc \<Rightarrow>
                       Inr (newEdges', AList.update target (set_add inc sourceName) newReverseEdges')))
        else Inr st)"

text \<open>A loop whose body may raise: the first error ends it.\<close>

fun for_each :: "('s \<Rightarrow> 'a \<Rightarrow> error + 's) \<Rightarrow> 's \<Rightarrow> 'a list \<Rightarrow> error + 's" where
  "for_each f s [] = Inr s"
| "for_each f s (x # xs) = (case f s x of Inl e \<Rightarrow> Inl e | Inr s' \<Rightarrow> for_each f s' xs)"

definition add_links ::
  "(string, GraphNode) js_map \<Rightarrow>
   (string, string list) js_map \<times> (string, string list) js_map \<Rightarrow> string \<times> string \<Rightarrow>
   error + (string, string list) js_map \<times> (string, string list) js_map" where
  "add_links newNodes st entry =
     for_each (add_link newNodes (nameFromPath (fst entry))) st (parseWikilinks (snd entry))"

text \<open>
  \<open>buildGraph\<close> takes the clock reading and the published graph, and returns what the
  caller gets (the error, or the new graph) with the graph that is published afterwards.
\<close>

definition buildGraph ::
  "(string \<Rightarrow> string list) \<Rightarrow> ContentSource \<Rightarrow> nat \<Rightarrow> Graph \<Rightarrow> (error + Graph) \<times> Graph" where
  "buildGraph parseTags src now graph =
     (case listAllNotes src of
        Inl e \<Rightarrow> (Inl e, graph)
      | Inr paths \<Rightarrow>
          let noteContents = read_batches src paths 0 [];
              built = foldl (add_node parseTags noteContents) ([], [], []) paths
          in (case for_each (add_links (fst built)) (snd built) noteContents of
                Inl e \<Rightarrow> (Inl e, graph)
              | Inr linked \<Rightarrow>
                  let g = \<lparr>nodes = fst built, edges = fst linked, reverseEdges = snd linked,
                           lastRefresh = now\<rparr>
                  in (Inr g, g)))"

section \<open>Queries\<close>

definition get_set :: "(string, string list) js_map \<Rightarrow> string \<Rightarrow> string list" where
  "get_set m k = (case map_of m k of Some s \<Rightarrow> s | None \<Rightarrow> [])"

definition neighbors :: "Graph \<Rightarrow> string \<Rightarrow> string list" where
  "neighbors g n = new_Set (get_set (edges g) n @ get_set (reverseEdges g) n)"

definition linked_names :: "Graph \<Rightarrow> string set" where
  "linked_names g =
     (\<Union>s \<in> snd ` set (edges g). set s) \<union> (\<Union>s \<in> snd ` set (reverseEdges g). set s)"

lemma set_foldl_set_add: "set (foldl set_add acc xs) = set acc \<union> set xs"
  by (induction xs arbitrary: acc) (auto simp: set_add_def)

lemma set_new_Set: "set (new_Set xs) = set xs"
  by (simp add: new_Set_def set_foldl_set_add)

lemma get_set_subset: "set (get_set m k) \<subseteq> (\<Union>s \<in> snd ` set m. set s)"
proof (cases "map_of m k")
  case None
  then show ?thesis by (simp add: get_set_def)
next
  case (Some s)
  then have "(k, s) \<in> set m" by (rule map_of_SomeD)
  then have "s \<in> snd ` set m" by force
  with Some show ?thesis by (auto simp: get_set_def)
qed

lemma neighbors_linked: "set (neighbors g n) \<subseteq> linked_names g"
  using get_set_subset [of "edges g" n] get_set_subset [of "reverseEdges g" n]
  by (auto simp: neighbors_def set_new_Set linked_names_def)

lemma finite_linked_names: "finite (linked_names g)"
  by (simp add: linked_names_def)

definition visit :: "nat \<Rightarrow> string set \<times> (string \<times> nat) list \<Rightarrow> string \<Rightarrow> string set \<times> (string \<times> nat) list" where
  "visit d st neighbor =
     (case st of (visited, queue) \<Rightarrow>
        if neighbor \<notin> visited then (insert neighbor visited, queue @ [(neighbor, d + 1)])
        else (visited, queue))"

lemma fst_foldl_visit: "fst (foldl (visit d) (V, Q) ns) = V \<union> set ns"
  by (induction ns arbitrary: V Q) (auto simp: visit_def)

lemma foldl_visit_same: "set ns \<subseteq> V \<Longrightarrow> foldl (visit d) (V, Q) ns = (V, Q)"
  by (induction ns arbitrary: V Q) (auto simp: visit_def)

function queryRelated_loop ::
  "Graph \<Rightarrow> rat \<Rightarrow> (string \<times> string \<times> nat) list \<Rightarrow> string set \<Rightarrow> (string \<times> nat) list \<Rightarrow>
   (string \<times> string \<times> nat) list" where
  "queryRelated_loop g depth results visited [] = results"
| "queryRelated_loop g depth results visited ((n, d) # queue) =
     (let results' =
            (if d > 0 then
               (case map_of (nodes g) n of
                  Some node \<Rightarrow> results @ [(n, path node, d)]
                | None \<Rightarrow> results)
             else results);
          st = (if of_nat d < depth then foldl (visit d) (visited, queue) (neighbors g n)
                else (visited, queue))
      in queryRelated_loop g depth results' (fst st) (snd st))"
  by pat_completeness auto
termination
proof (relation "measures [\<lambda>(g, depth, results, visited, queue). card (linked_names g - visited),
    \<lambda>(g, depth, results, visited, queue). length queue]", goal_cases)
  case 1
  show ?case by simp
next
  case (2 g depth results visited n d queue results' st)
  show ?case
  proof (cases "of_nat d < depth \<and> \<not> set (neighbors g n) \<subseteq> visited")
    case True
    then have st: "fst st = visited \<union> set (neighbors g n)"
      using 2 by (simp add: fst_foldl_visit)
    have "linked_names g - fst st \<subset> linked_names g - visited"
      using True neighbors_linked [of g n] unfolding st by auto
    then have "card (linked_names g - fst st) < card (linked_names g - visited)"
      by (intro psubset_card_mono) (auto simp: finite_linked_names)
    then show ?thesis by (simp add: case_prod_beta)
  next
    case False
    then have "st = (visited, queue)"
      using 2 by (auto simp: foldl_visit_same)
    then show ?thesis by simp
  qed
qed

definition queryRelated :: "Graph \<Rightarrow> string \<Rightarrow> rat \<Rightarrow> (string \<times> string \<times> nat) list" where
  "queryRelated g startName depth = queryRelated_loop g depth [] {startName} [(startName, 0)]"


partial_function (option) reconstruct :: "(string \<rightharpoonup> string) \<Rightarrow> string \<Rightarrow> string list \<Rightarrow> string list option" where
  "reconstruct parent node p =
     (case parent node of
        None \<Rightarrow> Some p
      | Some node' \<Rightarrow> reconstruct parent node' (node' # p))"

declare reconstruct.simps [code]

fun scan_neighbors ::
  "string \<Rightarrow> string \<Rightarrow> string set \<times> (string \<rightharpoonup> string) \<times> string list \<Rightarrow> string list \<Rightarrow>
   string list option + string set \<times> (string \<rightharpoonup> string) \<times> string list" where
  "scan_neighbors toName current st [] = Inr st"
| "scan_neighbors toName current (visited, parent, queue) (neighbor # rest) =
     (if neighbor \<notin> visited then
        (let visited' = insert neighbor visited;
             parent' = parent(neighbor \<mapsto> current)
         in if neighbor = toName then Inl (reconstruct parent' toName [toName])
            else scan_neighbors toName current (visited', parent', queue @ [neighbor]) rest)
      else scan_neighbors toName current (visited, parent, queue) rest)"

lemma scan_neighbors_visited:
  "scan_neighbors t c (V, P, Q) ns = Inr (V', P', Q') \<Longrightarrow> V' = V \<union> set ns"
  by (induction ns arbitrary: V P Q) (auto simp: Let_def split: if_splits)

lemma scan_neighbors_same:
  "set ns \<subseteq> V \<Longrightarrow> scan_neighbors t c (V, P, Q) ns = Inr (V, P, Q)"
  by (induction ns arbitrary: V P Q) auto

function findPath_loop ::
  "Graph \<Rightarrow> string \<Rightarrow> string set \<Rightarrow> (string \<rightharpoonup> string) \<Rightarrow> string list \<Rightarrow> string list option option" where
  "findPath_loop g toName visited parent [] = Some None"
| "findPath_loop g toName visited parent (current # queue) =
     (case scan_neighbors toName current (visited, parent, queue) (neighbors g current) of
        Inl found \<Rightarrow> map_option Some found
      | Inr (visited', parent', queue') \<Rightarrow> findPath_loop g toName visited' parent' queue')"
  by pat_completeness auto
termination
proof (relation "measures [\<lambda>(g, toName, visited, parent, queue). card (linked_names g - visited),
    \<lambda>(g, toName, visited, parent, queue). length queue]", goal_cases)
  case 1
  show ?case by simp
next
  case (2 g toName visited parent current queue st visited' rest parent' queue')
  then have sc: "scan_neighbors toName current (visited, parent, queue) (neighbors g current)
      = Inr (visited', parent', queue')"
    by simp
  show ?case
  proof (cases "set (neighbors g current) \<subseteq> visited")
    case True
    with sc have "visited' = visited" "queue' = queue"
      by (simp_all add: scan_neighbors_same)
    then show ?thesis by simp
  next
    case False
    have v: "visited' = visited \<union> set (neighbors g current)"
      using sc by (rule scan_neighbors_visited)
    have "linked_names g - visited' \<subset> linked_names g - visited"
      using False neighbors_linked [of g current] unfolding v by auto
    then have "card (linked_names g - visited') < card (linked_names g - visited)"
      by (intro psubset_card_mono) (auto simp: finite_linked_names)
    then show ?thesis by simp
  qed
qed

definition findPath :: "Graph \<Rightarrow> string \<Rightarrow> string \<Rightarrow> string list option option" where
  "findPath g fromName toName =
     (if fromName = toName then Some (Some [fromName])
      else if \<not> has (nodes g) fromName \<or> \<not> has (nodes g) toName then Some None
      else findPath_loop g toName {fromName} Map.empty [fromName])"


text \<open>\<open>map.get(name)?.size || 0\<close>\<close>

definition size_of :: "(string, string list) js_map \<Rightarrow> string \<Rightarrow> nat" where
  "size_of m k = (case map_of m k of Some s \<Rightarrow> length s | None \<Rightarrow> 0)"

text \<open>
  \<open>xs.sort((a, b) => key(b) - key(a))\<close>: the stable sort by descending key; and
  \<open>xs.slice(0, n)\<close> for an integer \<open>n\<close>, which counts from the end when \<open>n\<close> is negative.
\<close>

definition sort_desc :: "('a \<Rightarrow> nat) \<Rightarrow> 'a list \<Rightarrow> 'a list" where
  "sort_desc key xs = sort_key (\<lambda>x. - int (key x)) xs"

definition slice0 :: "'a list \<Rightarrow> int \<Rightarrow> 'a list" where
  "slice0 xs n = (if n < 0 then take (nat (int (length xs) + n)) xs else take (nat n) xs)"

definition getHubs :: "Graph \<Rightarrow> int \<Rightarrow> (string \<times> string \<times> nat \<times> nat \<times> nat) list" where
  "getHubs g topN =
     (let hubs = map (\<lambda>(n, node).
                   let outgoing = size_of (edges g) n;
                       incoming = size_of (reverseEdges g) n
                   in (n, path node, outgoing, incoming, outgoing + incoming)) (nodes g)
      in slice0 (sort_desc (\<lambda>h. snd (snd (snd (snd h)))) hubs) topN)"

definition getOrphans :: "Graph \<Rightarrow> (string \<times> string) list" where
  "getOrphans g =
     map (\<lambda>(n, node). (n, path node))
       (filter (\<lambda>(n, node). size_of (edges g) n = 0 \<and> size_of (reverseEdges g) n = 0) (nodes g))"

datatype cluster_by = by_folder | by_tag

text \<open>\<open>if (!groups.has(key)) groups.set(key, []); groups.get(key)!.push(note)\<close>\<close>

definition push_group ::
  "(string, (string \<times> string) list) js_map \<Rightarrow> string \<Rightarrow> string \<times> string \<Rightarrow>
   (string, (string \<times> string) list) js_map" where
  "push_group groups key note =
     (case map_of groups key of
        None \<Rightarrow> AList.update key [note] groups
      | Some notes \<Rightarrow> AList.update key (notes @ [note]) groups)"

definition add_to_clusters ::
  "cluster_by \<Rightarrow> (string, (string \<times> string) list) js_map \<Rightarrow> string \<times> GraphNode \<Rightarrow>
   (string, (string \<times> string) list) js_map" where
  "add_to_clusters by groups entry =
     (case entry of (n, node) \<Rightarrow>
        (case by of
           by_folder \<Rightarrow>
             push_group groups (if folder node = [] then ''(root)'' else folder node) (n, path node)
         | by_tag \<Rightarrow>
             if length (tags node) = 0 then push_group groups ''(untagged)'' (n, path node)
             else foldl (\<lambda>gs tag. push_group gs tag (n, path node)) groups (tags node)))"

definition getClusters :: "Graph \<Rightarrow> cluster_by \<Rightarrow> (string \<times> (string \<times> string) list) list" where
  "getClusters g by =
     sort_desc (\<lambda>c. length (snd c)) (foldl (add_to_clusters by) [] (nodes g))"

text \<open>
  \<open>getStats\<close>.  The floating-point expression
  \<open>Math.round((totalLinks / totalNotes) * 100) / 100\<close> is the parameter \<open>round2\<close>; the
  snapshot's time stamp stands for its ISO rendering.
\<close>

record Stats =
  totalNotes :: nat
  totalLinks :: nat
  totalTags :: nat
  orphanCount :: nat
  avgLinksPerNote :: rat
  lastRefreshISO :: nat
  folders :: nat

definition stats_step ::
  "Graph \<Rightarrow> nat \<times> string list \<times> string list \<Rightarrow> string \<times> GraphNode \<Rightarrow> nat \<times> string list \<times> string list" where
  "stats_step g acc entry =
     (case acc of (links, allTags, folderSet) \<Rightarrow>
        (case entry of (n, node) \<Rightarrow>
           (links + size_of (edges g) n,
            foldl set_add allTags (tags node),
            if folder node \<noteq> [] then set_add folderSet (folder node) else folderSet)))"

definition getStats :: "(nat \<Rightarrow> nat \<Rightarrow> rat) \<Rightarrow> Graph \<Rightarrow> Stats" where
  "getStats round2 g =
     (case foldl (stats_step g) (0, [], []) (nodes g) of (links, allTags, folderSet) \<Rightarrow>
        let notes = length (nodes g)
        in \<lparr>totalNotes = notes,
            totalLinks = links,
            totalTags = length allTags,
            orphanCount = length (getOrphans g),
            avgLinksPerNote = (if notes > 0 then round2 links notes else 0),
            lastRefreshISO = lastRefresh g,
            folders = length folderSet\<rparr>)"

section \<open>The path tool (\<open>tools/find-path\<close>)\<close>






section \<open>Facts about the ingestion\<close>

lemma has_iff_keys: "has m k \<longleftrightarrow> k \<in> fst ` set m"
  by (simp add: has_def map_of_eq_None_iff)

lemma read_batches_foldl:
  "read_batches src paths i nc =
     foldl store_result nc (map (\<lambda>p. (p, readNote src p)) (drop i paths))"
proof (induction src paths i nc rule: read_batches.induct)
  case (1 src paths i nc)
  show ?case
  proof (cases "i < length paths")
    case True
    have split: "drop i paths = take BATCH_SIZE (drop i paths) @ drop (i + BATCH_SIZE) paths"
      using append_take_drop_id [of BATCH_SIZE "drop i paths"] by (simp add: add.commute)
    have "read_batches src paths i nc =
        read_batches src paths (i + BATCH_SIZE)
          (foldl store_result nc (map (\<lambda>p. (p, readNote src p)) (take BATCH_SIZE (drop i paths))))"
      using True by (subst read_batches.simps) (simp add: Let_def)
    also have "\<dots> = foldl store_result
          (foldl store_result nc (map (\<lambda>p. (p, readNote src p)) (take BATCH_SIZE (drop i paths))))
          (map (\<lambda>p. (p, readNote src p)) (drop (i + BATCH_SIZE) paths))"
      using True by (intro "1.IH") simp_all
    also have "\<dots> = foldl store_result nc (map (\<lambda>p. (p, readNote src p))
          (take BATCH_SIZE (drop i paths) @ drop (i + BATCH_SIZE) paths))"
      by simp
    finally show ?thesis
      using split by simp
  next
    case False
    then show ?thesis
      by (subst read_batches.simps) simp
  qed
qed

definition fetched :: "ContentSource \<Rightarrow> string list \<Rightarrow> (string, string) js_map" where
  "fetched src paths = foldl store_result [] (map (\<lambda>p. (p, readNote src p)) paths)"

lemma map_of_store_results:
  "map_of (foldl store_result nc (map (\<lambda>p. (p, readNote src p)) ps)) q =
     (if q \<in> set ps then (case readNote src q of Inr c \<Rightarrow> Some c | Inl e \<Rightarrow> map_of nc q)
      else map_of nc q)"
proof (induction ps arbitrary: nc)
  case Nil
  show ?case by simp
next
  case (Cons p ps)
  show ?case
    by (simp add: Cons.IH) (auto simp: store_result_def AList.update_conv' split: sum.splits)
qed

lemma distinct_store_results:
  "distinct (map fst nc) \<Longrightarrow>
   distinct (map fst (foldl store_result nc (map (\<lambda>p. (p, readNote src p)) ps)))"
  by (induction ps arbitrary: nc) (auto simp: store_result_def AList.distinct_update split: sum.splits)

lemma fetched_iff:
  "(q, c) \<in> set (fetched src paths) \<longleftrightarrow> q \<in> set paths \<and> readNote src q = Inr c"
proof -
  have d: "distinct (map fst (fetched src paths))"
    unfolding fetched_def by (rule distinct_store_results) simp
  have "(q, c) \<in> set (fetched src paths) \<longleftrightarrow> map_of (fetched src paths) q = Some c"
    using d by simp
  also have "\<dots> \<longleftrightarrow> q \<in> set paths \<and> readNote src q = Inr c"
    by (auto simp: fetched_def map_of_store_results split: sum.splits)
  finally show ?thesis .
qed

lemma map_of_fetched:
  "map_of (fetched src paths) q =
     (if q \<in> set paths then (case readNote src q of Inr c \<Rightarrow> Some c | Inl e \<Rightarrow> None) else None)"
  by (simp add: fetched_def map_of_store_results split: sum.splits)

definition keys_agree :: "('k \<times> 'a) list \<Rightarrow> ('k \<times> 'b) list \<Rightarrow> bool" where
  "keys_agree m m' \<longleftrightarrow> map fst m = map fst m'"

lemma keys_agree_update: "keys_agree m m' \<Longrightarrow> keys_agree (AList.update k v m) (AList.update k v' m')"
  by (simp add: keys_agree_def AList.update_keys)

lemma keys_agree_has: "keys_agree m m' \<Longrightarrow> has m k = has m' k"
  by (metis has_iff_keys keys_agree_def list.set_map)

lemma add_node_keys:
  assumes "foldl (add_node pt nc) (N0, E0, R0) ps = (N, E, R)"
    and "keys_agree N0 E0" and "keys_agree N0 R0"
  shows "keys_agree N E \<and> keys_agree N R"
  using assms
proof (induction ps arbitrary: N0 E0 R0)
  case Nil
  then show ?case by simp
next
  case (Cons p ps)
  show ?case
    using Cons.prems
    by (intro Cons.IH [of "AList.update (nameFromPath p) (make_node pt nc p) N0"
          "AList.update (nameFromPath p) [] E0" "AList.update (nameFromPath p) [] R0"])
      (simp_all add: add_node_def keys_agree_update)
qed

lemma add_node_key_set:
  "foldl (add_node pt nc) (N0, E0, R0) ps = (N, E, R) \<Longrightarrow>
   fst ` set N = fst ` set N0 \<union> nameFromPath ` set ps"
proof (induction ps arbitrary: N0 E0 R0)
  case Nil
  then show ?case by simp
next
  case (Cons p ps)
  from Cons.prems have "fst ` set N =
      fst ` set (AList.update (nameFromPath p) (make_node pt nc p) N0) \<union> nameFromPath ` set ps"
    by (intro Cons.IH [of _ "AList.update (nameFromPath p) [] E0" "AList.update (nameFromPath p) [] R0"])
      (simp add: add_node_def)
  then show ?case
    by (auto simp: AList.dom_update)
qed

lemma update_empty_values:
  "\<forall>s \<in> snd ` set m. s = [] \<Longrightarrow> \<forall>s \<in> snd ` set (AList.update k [] m). s = []"
  by (induction m) auto

lemma add_node_empty_sets:
  assumes "foldl (add_node pt nc) (N0, E0, R0) ps = (N, E, R)"
    and "\<forall>s \<in> snd ` set E0. s = []" and "\<forall>s \<in> snd ` set R0. s = []"
  shows "(\<forall>s \<in> snd ` set E. s = []) \<and> (\<forall>s \<in> snd ` set R. s = [])"
  using assms
proof (induction ps arbitrary: N0 E0 R0)
  case Nil
  then show ?case by simp
next
  case (Cons p ps)
  show ?case
    using Cons.prems(1)
    by (intro Cons.IH [of "AList.update (nameFromPath p) (make_node pt nc p) N0"
          "AList.update (nameFromPath p) [] E0" "AList.update (nameFromPath p) [] R0"]
        update_empty_values Cons.prems(2,3))
      (simp add: add_node_def)
qed

lemma add_node_last:
  "map_of (fst (foldl (add_node pt nc) st ps)) n =
     (case filter (\<lambda>p. nameFromPath p = n) ps of
        [] \<Rightarrow> map_of (fst st) n
      | q # qs \<Rightarrow> Some (make_node pt nc (last (q # qs))))"
proof (induction ps arbitrary: st)
  case Nil
  show ?case by simp
next
  case (Cons p ps)
  obtain N0 E0 R0 where st: "st = (N0, E0, R0)"
    by (cases st) auto
  show ?case
    by (simp add: Cons.IH) (auto simp: st add_node_def AList.update_conv' split: list.splits)
qed

lemma make_node_fetched:
  "p \<in> set paths \<Longrightarrow>
   make_node pt (fetched src paths) p =
     \<lparr>path = p, name = nameFromPath p, folder = folderFromPath p,
      tags = pt (case readNote src p of Inr c \<Rightarrow> c | Inl e \<Rightarrow> []),
      hasContent = (length (trim (case readNote src p of Inr c \<Rightarrow> c | Inl e \<Rightarrow> [])) > 0)\<rparr>"
  by (simp add: make_node_def map_of_fetched split: sum.splits)

lemma set_set_add: "set (set_add s x) = insert x (set s)"
  by (auto simp: set_add_def)

lemma keys_agree_update_present:
  "keys_agree m m' \<Longrightarrow> has m' k \<Longrightarrow> keys_agree m (AList.update k v m')"
  by (auto simp: keys_agree_def AList.update_keys has_iff_keys)

lemma get_set_update: "get_set (AList.update k v m) n = (if n = k then v else get_set m n)"
  by (simp add: get_set_def AList.update_conv')

lemma add_link_effect:
  assumes "keys_agree N E" and "keys_agree N R" and "has N s"
  shows "\<exists>E' R'. add_link N s (E, R) t = Inr (E', R') \<and> keys_agree N E' \<and> keys_agree N R' \<and>
      (\<forall>n. set (get_set E' n) = set (get_set E n) \<union> (if n = s \<and> has N t then {t} else {})) \<and>
      (\<forall>n. set (get_set R' n) = set (get_set R n) \<union> (if n = t \<and> has N t then {s} else {}))"
proof (cases "has N t")
  case False
  then show ?thesis
    using assms by (simp add: add_link_def)
next
  case True
  have "has E s"
    using assms(3) keys_agree_has [OF assms(1), of s] by simp
  then obtain out where out: "map_of E s = Some out"
    by (auto simp: has_def)
  have hR: "has R t"
    using True keys_agree_has [OF assms(2), of t] by simp
  then obtain inc where inc: "map_of R t = Some inc"
    by (auto simp: has_def)
  have res: "add_link N s (E, R) t =
      Inr (AList.update s (set_add out t) E, AList.update t (set_add inc s) R)"
    using True out inc hR by (simp add: add_link_def)
  have "get_set E s = out" "get_set R t = inc"
    using out inc by (simp_all add: get_set_def)
  then show ?thesis
    unfolding res using True assms \<open>has E s\<close> hR
    by (auto simp: keys_agree_update_present get_set_update set_set_add)
qed

lemma add_link_loop:
  assumes "keys_agree N E" and "keys_agree N R" and "has N s"
  shows "\<exists>E' R'. for_each (add_link N s) (E, R) ts = Inr (E', R') \<and>
      keys_agree N E' \<and> keys_agree N R' \<and>
      (\<forall>n. set (get_set E' n) = set (get_set E n) \<union> (if n = s then {t \<in> set ts. has N t} else {})) \<and>
      (\<forall>n. set (get_set R' n) = set (get_set R n) \<union> (if n \<in> set ts \<and> has N n then {s} else {}))"
  using assms(1,2)
proof (induction ts arbitrary: E R)
  case Nil
  then show ?case by simp
next
  case (Cons t ts)
  obtain E1 R1 where 1: "add_link N s (E, R) t = Inr (E1, R1)" "keys_agree N E1" "keys_agree N R1"
      "\<forall>n. set (get_set E1 n) = set (get_set E n) \<union> (if n = s \<and> has N t then {t} else {})"
      "\<forall>n. set (get_set R1 n) = set (get_set R n) \<union> (if n = t \<and> has N t then {s} else {})"
    using add_link_effect [OF Cons.prems assms(3), of t] by blast
  obtain E' R' where 2: "for_each (add_link N s) (E1, R1) ts = Inr (E', R')"
      "keys_agree N E'" "keys_agree N R'"
      "\<forall>n. set (get_set E' n) = set (get_set E1 n) \<union> (if n = s then {t \<in> set ts. has N t} else {})"
      "\<forall>n. set (get_set R' n) = set (get_set R1 n) \<union> (if n \<in> set ts \<and> has N n then {s} else {})"
    using Cons.IH [OF 1(2,3)] by blast
  have "for_each (add_link N s) (E, R) (t # ts) = Inr (E', R')"
    using 1(1) 2(1) by simp
  moreover have "\<forall>n. set (get_set E' n) =
      set (get_set E n) \<union> (if n = s then {t' \<in> set (t # ts). has N t'} else {})"
    using 1(4) 2(4) by auto
  moreover have "\<forall>n. set (get_set R' n) =
      set (get_set R n) \<union> (if n \<in> set (t # ts) \<and> has N n then {s} else {})"
    using 1(5) 2(5) by auto
  ultimately show ?case
    using 2(2,3) by blast
qed

lemma add_links_loop:
  assumes "keys_agree N E" and "keys_agree N R"
    and "\<forall>e \<in> set nc. has N (nameFromPath (fst e))"
  shows "\<exists>E' R'. for_each (add_links N) (E, R) nc = Inr (E', R') \<and>
      keys_agree N E' \<and> keys_agree N R' \<and>
      (\<forall>n. set (get_set E' n) = set (get_set E n) \<union>
         {t. \<exists>e \<in> set nc. nameFromPath (fst e) = n \<and> t \<in> set (parseWikilinks (snd e)) \<and> has N t}) \<and>
      (\<forall>n. set (get_set R' n) = set (get_set R n) \<union>
         {s. \<exists>e \<in> set nc. nameFromPath (fst e) = s \<and> n \<in> set (parseWikilinks (snd e)) \<and> has N n})"
  using assms
proof (induction nc arbitrary: E R)
  case Nil
  then show ?case by simp
next
  case (Cons e nc)
  from Cons.prems(3) have hs: "has N (nameFromPath (fst e))"
    by simp
  obtain E1 R1 where 1: "add_links N (E, R) e = Inr (E1, R1)" "keys_agree N E1" "keys_agree N R1"
      "\<forall>n. set (get_set E1 n) = set (get_set E n) \<union>
         (if n = nameFromPath (fst e) then {t \<in> set (parseWikilinks (snd e)). has N t} else {})"
      "\<forall>n. set (get_set R1 n) = set (get_set R n) \<union>
         (if n \<in> set (parseWikilinks (snd e)) \<and> has N n then {nameFromPath (fst e)} else {})"
    using add_link_loop [OF Cons.prems(1,2) hs, of "parseWikilinks (snd e)"]
    unfolding add_links_def by blast
  from Cons.prems(3) have "\<forall>e \<in> set nc. has N (nameFromPath (fst e))"
    by simp
  then obtain E' R' where 2: "for_each (add_links N) (E1, R1) nc = Inr (E', R')"
      "keys_agree N E'" "keys_agree N R'"
      "\<forall>n. set (get_set E' n) = set (get_set E1 n) \<union>
         {t. \<exists>e \<in> set nc. nameFromPath (fst e) = n \<and> t \<in> set (parseWikilinks (snd e)) \<and> has N t}"
      "\<forall>n. set (get_set R' n) = set (get_set R1 n) \<union>
         {s. \<exists>e \<in> set nc. nameFromPath (fst e) = s \<and> n \<in> set (parseWikilinks (snd e)) \<and> has N n}"
    using Cons.IH [OF 1(2,3)] by blast
  have "for_each (add_links N) (E, R) (e # nc) = Inr (E', R')"
    using 1(1) 2(1) by simp
  moreover have "\<forall>n. set (get_set E' n) = set (get_set E n) \<union>
      {t. \<exists>e' \<in> set (e # nc). nameFromPath (fst e') = n \<and> t \<in> set (parseWikilinks (snd e')) \<and> has N t}"
    using 1(4) 2(4) by auto
  moreover have "\<forall>n. set (get_set R' n) = set (get_set R n) \<union>
      {s. \<exists>e' \<in> set (e # nc). nameFromPath (fst e') = s \<and> n \<in> set (parseWikilinks (snd e')) \<and> has N n}"
    using 1(5) 2(5) by auto
  ultimately show ?case
    using 2(2,3) by blast
qed

lemma get_set_empty_values: "\<forall>s \<in> snd ` set m. s = [] \<Longrightarrow> get_set m n = []"
proof (cases "map_of m n")
  case None
  then show ?thesis by (simp add: get_set_def)
next
  case (Some s)
  assume a: "\<forall>s \<in> snd ` set m. s = []"
  from Some have "(n, s) \<in> set m" by (rule map_of_SomeD)
  then have "s \<in> snd ` set m" by force
  with a have "s = []" by blast
  with Some show ?thesis by (simp add: get_set_def)
qed

lemma buildGraph_snapshot:
  assumes "listAllNotes src = Inr paths"
  shows "\<exists>g. buildGraph pt src now graph = (Inr g, g) \<and> lastRefresh g = now \<and>
      nodes g = fst (foldl (add_node pt (fetched src paths)) ([], [], []) paths) \<and>
      keys_agree (nodes g) (edges g) \<and> keys_agree (nodes g) (reverseEdges g) \<and>
      fst ` set (nodes g) = nameFromPath ` set paths \<and>
      (\<forall>n. set (get_set (edges g) n) =
         {t. \<exists>q c. q \<in> set paths \<and> readNote src q = Inr c \<and> nameFromPath q = n \<and>
                t \<in> set (parseWikilinks c) \<and> has (nodes g) t}) \<and>
      (\<forall>n. set (get_set (reverseEdges g) n) =
         {s. \<exists>q c. q \<in> set paths \<and> readNote src q = Inr c \<and> nameFromPath q = s \<and>
                n \<in> set (parseWikilinks c) \<and> has (nodes g) n})"
proof -
  let ?nc = "fetched src paths"
  obtain N E R where built: "foldl (add_node pt ?nc) ([], [], []) paths = (N, E, R)"
    by (cases "foldl (add_node pt ?nc) ([], [], []) paths") auto
  have nc: "read_batches src paths 0 [] = ?nc"
    using read_batches_foldl [of src paths 0 "[]"] by (simp add: fetched_def del: read_batches.simps)
  have "keys_agree N E \<and> keys_agree N R"
    by (rule add_node_keys [OF built]) (simp_all add: keys_agree_def)
  then have ka: "keys_agree N E" "keys_agree N R"
    by blast+
  have keys: "fst ` set N = nameFromPath ` set paths"
    using add_node_key_set [OF built] by simp
  have empty: "get_set E n = []" "get_set R n = []" for n
    using add_node_empty_sets [OF built] by (simp_all add: get_set_empty_values)
  have "\<forall>e \<in> set ?nc. has N (nameFromPath (fst e))"
  proof
    fix e assume "e \<in> set ?nc"
    then have "(fst e, snd e) \<in> set ?nc" by simp
    then have "fst e \<in> set paths" by (simp only: fetched_iff)
    then show "has N (nameFromPath (fst e))"
      by (simp add: has_iff_keys keys)
  qed
  from add_links_loop [OF ka this]
  obtain E' R' where l: "for_each (add_links N) (E, R) ?nc = Inr (E', R')"
      "keys_agree N E'" "keys_agree N R'"
      "\<forall>n. set (get_set E' n) = set (get_set E n) \<union>
         {t. \<exists>e \<in> set ?nc. nameFromPath (fst e) = n \<and> t \<in> set (parseWikilinks (snd e)) \<and> has N t}"
      "\<forall>n. set (get_set R' n) = set (get_set R n) \<union>
         {s. \<exists>e \<in> set ?nc. nameFromPath (fst e) = s \<and> n \<in> set (parseWikilinks (snd e)) \<and> has N n}"
    by blast
  let ?g = "\<lparr>nodes = N, edges = E', reverseEdges = R', lastRefresh = now\<rparr>"
  have bex: "(\<exists>e \<in> set ?nc. P (fst e) (snd e)) \<longleftrightarrow> (\<exists>q c. q \<in> set paths \<and> readNote src q = Inr c \<and> P q c)" for P
  proof
    assume "\<exists>e \<in> set ?nc. P (fst e) (snd e)"
    then obtain e where "e \<in> set ?nc" "P (fst e) (snd e)" by blast
    moreover from this have "(fst e, snd e) \<in> set ?nc" by simp
    ultimately show "\<exists>q c. q \<in> set paths \<and> readNote src q = Inr c \<and> P q c"
      by (metis fetched_iff)
  next
    assume "\<exists>q c. q \<in> set paths \<and> readNote src q = Inr c \<and> P q c"
    then obtain q c where "(q, c) \<in> set ?nc" "P q c"
      by (auto simp: fetched_iff)
    then show "\<exists>e \<in> set ?nc. P (fst e) (snd e)"
      by force
  qed
  have "buildGraph pt src now graph = (Inr ?g, ?g)"
    using assms built l(1) by (simp add: buildGraph_def nc Let_def del: read_batches.simps)
  moreover have "\<forall>n. set (get_set E' n) =
      {t. \<exists>q c. q \<in> set paths \<and> readNote src q = Inr c \<and> nameFromPath q = n \<and>
             t \<in> set (parseWikilinks c) \<and> has N t}"
    using l(4) bex [of "\<lambda>q c. nameFromPath q = _ \<and> _ \<in> set (parseWikilinks c) \<and> has N _"]
    by (simp add: empty)
  moreover have "\<forall>n. set (get_set R' n) =
      {s. \<exists>q c. q \<in> set paths \<and> readNote src q = Inr c \<and> nameFromPath q = s \<and>
             n \<in> set (parseWikilinks c) \<and> has N n}"
    using l(5) bex [of "\<lambda>q c. nameFromPath q = _ \<and> _ \<in> set (parseWikilinks c) \<and> has N _"]
    by (simp add: empty)
  ultimately show ?thesis
    using built l(2,3) keys by (intro exI [of _ ?g]) simp
qed

lemma add_node_distinct:
  "foldl (add_node pt nc) (N0, E0, R0) ps = (N, E, R) \<Longrightarrow> distinct (map fst N0) \<Longrightarrow>
   distinct (map fst N)"
proof (induction ps arbitrary: N0 E0 R0)
  case Nil
  then show ?case by simp
next
  case (Cons p ps)
  show ?case
    using Cons.prems
    by (intro Cons.IH [of "AList.update (nameFromPath p) (make_node pt nc p) N0"
          "AList.update (nameFromPath p) [] E0" "AList.update (nameFromPath p) [] R0"])
      (simp_all add: add_node_def AList.distinct_update)
qed

definition built_from :: "(string \<Rightarrow> string list) \<Rightarrow> ContentSource \<Rightarrow> string list \<Rightarrow> Graph \<Rightarrow> bool" where
  "built_from pt src paths g \<longleftrightarrow>
     nodes g = fst (foldl (add_node pt (fetched src paths)) ([], [], []) paths) \<and>
     keys_agree (nodes g) (edges g) \<and> keys_agree (nodes g) (reverseEdges g) \<and>
     distinct (map fst (nodes g)) \<and>
     fst ` set (nodes g) = nameFromPath ` set paths \<and>
     (\<forall>n. set (get_set (edges g) n) =
         {t. \<exists>q c. q \<in> set paths \<and> readNote src q = Inr c \<and> nameFromPath q = n \<and>
                t \<in> set (parseWikilinks c) \<and> has (nodes g) t}) \<and>
     (\<forall>n. set (get_set (reverseEdges g) n) =
         {s. \<exists>q c. q \<in> set paths \<and> readNote src q = Inr c \<and> nameFromPath q = s \<and>
                n \<in> set (parseWikilinks c) \<and> has (nodes g) n})"

lemma buildGraph_built_from:
  assumes "listAllNotes src = Inr paths"
  shows "\<exists>g. buildGraph pt src now graph = (Inr g, g) \<and> lastRefresh g = now \<and> built_from pt src paths g"
proof -
  obtain h where h: "buildGraph pt src now graph = (Inr h, h)" "lastRefresh h = now"
      "nodes h = fst (foldl (add_node pt (fetched src paths)) ([], [], []) paths)"
      "keys_agree (nodes h) (edges h)" "keys_agree (nodes h) (reverseEdges h)"
      "fst ` set (nodes h) = nameFromPath ` set paths"
      "\<forall>n. set (get_set (edges h) n) =
         {t. \<exists>q c. q \<in> set paths \<and> readNote src q = Inr c \<and> nameFromPath q = n \<and>
                t \<in> set (parseWikilinks c) \<and> has (nodes h) t}"
      "\<forall>n. set (get_set (reverseEdges h) n) =
         {s. \<exists>q c. q \<in> set paths \<and> readNote src q = Inr c \<and> nameFromPath q = s \<and>
                n \<in> set (parseWikilinks c) \<and> has (nodes h) n}"
    using buildGraph_snapshot [OF assms, of pt now graph] by blast
  obtain N E R where built: "foldl (add_node pt (fetched src paths)) ([], [], []) paths = (N, E, R)"
    by (cases "foldl (add_node pt (fetched src paths)) ([], [], []) paths") auto
  have "distinct (map fst (nodes h))"
    using add_node_distinct [OF built] h(3) built by simp
  with h have "built_from pt src paths h"
    unfolding built_from_def by blast
  with h(1,2) show ?thesis
    by blast
qed

lemma buildGraph_cases:
  assumes "buildGraph pt src now graph = (Inr g, g')"
  shows "\<exists>paths. listAllNotes src = Inr paths \<and> g' = g \<and> lastRefresh g = now \<and> built_from pt src paths g"
proof -
  from assms obtain paths where p: "listAllNotes src = Inr paths"
    by (cases "listAllNotes src") (auto simp: buildGraph_def)
  from buildGraph_built_from [OF p, of pt now graph] assms show ?thesis
    using p by auto
qed

lemma built_from_keys:
  assumes "built_from pt src paths g"
  shows "keys_agree (nodes g) (edges g)" and "keys_agree (nodes g) (reverseEdges g)"
    and "distinct (map fst (nodes g))" and "distinct (map fst (edges g))"
    and "distinct (map fst (reverseEdges g))"
    and "fst ` set (nodes g) = nameFromPath ` set paths"
    and "has (nodes g) n \<longleftrightarrow> n \<in> nameFromPath ` set paths"
    and "has (edges g) n \<longleftrightarrow> has (nodes g) n"
    and "has (reverseEdges g) n \<longleftrightarrow> has (nodes g) n"
proof -
  show ka: "keys_agree (nodes g) (edges g)" "keys_agree (nodes g) (reverseEdges g)"
    and d: "distinct (map fst (nodes g))"
    and k: "fst ` set (nodes g) = nameFromPath ` set paths"
    using assms unfolding built_from_def by blast+
  show "distinct (map fst (edges g))" "distinct (map fst (reverseEdges g))"
    using ka d by (simp_all add: keys_agree_def)
  show "has (nodes g) n \<longleftrightarrow> n \<in> nameFromPath ` set paths"
    by (simp add: has_iff_keys k)
  show "has (edges g) n \<longleftrightarrow> has (nodes g) n" "has (reverseEdges g) n \<longleftrightarrow> has (nodes g) n"
    using keys_agree_has [OF ka(1), of n] keys_agree_has [OF ka(2), of n] by simp_all
qed

lemma built_from_edges:
  assumes "built_from pt src paths g"
  shows "t \<in> set (get_set (edges g) n) \<longleftrightarrow>
      (\<exists>q c. q \<in> set paths \<and> readNote src q = Inr c \<and> nameFromPath q = n \<and>
             t \<in> set (parseWikilinks c) \<and> has (nodes g) t)"
    and "s \<in> set (get_set (reverseEdges g) n) \<longleftrightarrow>
      (\<exists>q c. q \<in> set paths \<and> readNote src q = Inr c \<and> nameFromPath q = s \<and>
             n \<in> set (parseWikilinks c) \<and> has (nodes g) n)"
proof -
  from assms have 1: "set (get_set (edges g) n) =
         {t. \<exists>q c. q \<in> set paths \<and> readNote src q = Inr c \<and> nameFromPath q = n \<and>
                t \<in> set (parseWikilinks c) \<and> has (nodes g) t}"
    and 2: "set (get_set (reverseEdges g) n) =
         {s. \<exists>q c. q \<in> set paths \<and> readNote src q = Inr c \<and> nameFromPath q = s \<and>
                n \<in> set (parseWikilinks c) \<and> has (nodes g) n}"
    unfolding built_from_def by blast+
  show "t \<in> set (get_set (edges g) n) \<longleftrightarrow>
      (\<exists>q c. q \<in> set paths \<and> readNote src q = Inr c \<and> nameFromPath q = n \<and>
             t \<in> set (parseWikilinks c) \<and> has (nodes g) t)"
    unfolding 1 by simp
  show "s \<in> set (get_set (reverseEdges g) n) \<longleftrightarrow>
      (\<exists>q c. q \<in> set paths \<and> readNote src q = Inr c \<and> nameFromPath q = s \<and>
             n \<in> set (parseWikilinks c) \<and> has (nodes g) n)"
    unfolding 2 by simp
qed

lemma built_from_node:
  assumes "built_from pt src paths g"
  shows "map_of (nodes g) n =
     (case filter (\<lambda>p. nameFromPath p = n) paths of
        [] \<Rightarrow> None
      | q # qs \<Rightarrow> Some (make_node pt (fetched src paths) (last (q # qs))))"
proof -
  from assms have "nodes g = fst (foldl (add_node pt (fetched src paths)) ([], [], []) paths)"
    unfolding built_from_def by blast
  then show ?thesis
    by (simp add: add_node_last split: list.splits)
qed

lemma in_set_get_set:
  "distinct (map fst m) \<Longrightarrow> (n, s) \<in> set m \<Longrightarrow> get_set m n = s"
  by (simp add: get_set_def)

definition body_of :: "ContentSource \<Rightarrow> string \<Rightarrow> string" where
  "body_of src p = (case readNote src p of Inr c \<Rightarrow> c | Inl e \<Rightarrow> [])"

definition node_of :: "(string \<Rightarrow> string list) \<Rightarrow> ContentSource \<Rightarrow> string \<Rightarrow> GraphNode" where
  "node_of parseTags src p =
     \<lparr>path = p, name = nameFromPath p, folder = folderFromPath p,
      tags = parseTags (body_of src p), hasContent = (length (trim (body_of src p)) > 0)\<rparr>"

definition example_source :: ContentSource where
  "example_source =
     \<lparr>listAllNotes = Inr [''A.md'', ''B.md'', ''C.md''],
      readNote = (\<lambda>p. if p = ''A.md'' then Inr ''[[B]] [[C]] #x''
                       else if p = ''B.md'' then Inr ''[[A]]''
                       else if p = ''C.md'' then Inr []
                       else Inl (Error ''404''))\<rparr>"

definition example_graph :: Graph where
  "example_graph =
     \<lparr>nodes =
        [(''A'', \<lparr>path = ''A.md'', name = ''A'', folder = [], tags = [], hasContent = True\<rparr>),
         (''B'', \<lparr>path = ''B.md'', name = ''B'', folder = [], tags = [], hasContent = True\<rparr>),
         (''C'', \<lparr>path = ''C.md'', name = ''C'', folder = [], tags = [], hasContent = False\<rparr>)],
      edges = [(''A'', [''B'', ''C'']), (''B'', [''A'']), (''C'', [])],
      reverseEdges = [(''A'', [''B'']), (''B'', [''A'']), (''C'', [''A''])],
      lastRefresh = 7\<rparr>"

lemma example_build:
  "buildGraph (\<lambda>c. []) example_source 7 initial_graph = (Inr example_graph, example_graph)"
  by code_simp

lemma built_from_closed:
  assumes bf: "built_from pt src paths g"
    and "(n, s) \<in> set (edges g) \<or> (n, s) \<in> set (reverseEdges g)" and "t \<in> set s"
  shows "has (nodes g) t"
proof -
  from assms(2,3) have "t \<in> set (get_set (edges g) n) \<or> t \<in> set (get_set (reverseEdges g) n)"
    using in_set_get_set [OF built_from_keys(4) [OF bf], of n s]
      in_set_get_set [OF built_from_keys(5) [OF bf], of n s] by auto
  then show ?thesis
  proof
    assume "t \<in> set (get_set (edges g) n)"
    then show ?thesis
      unfolding built_from_edges(1) [OF bf] by blast
  next
    assume "t \<in> set (get_set (reverseEdges g) n)"
    then obtain q where "q \<in> set paths" "nameFromPath q = t"
      unfolding built_from_edges(2) [OF bf] by blast
    then show ?thesis
      unfolding built_from_keys(7) [OF bf] by blast
  qed
qed

lemma has_get_set: "has m k \<Longrightarrow> map_of m k = Some (get_set m k)"
  by (auto simp: has_def get_set_def)

text \<open>
  Claim C7.  Every snapshot that \<open>buildGraph\<close> returns has a forward and a reverse
  adjacency entry for every node, and every name in a forward or reverse adjacency set is
  the name of a node of the same snapshot.
\<close>

theorem buildGraph_invariants:
  assumes "buildGraph parseTags src now graph = (Inr g, g')"
  shows "(\<forall>n. has (nodes g) n \<longrightarrow> has (edges g) n \<and> has (reverseEdges g) n) \<and>
     (\<forall>n s t. ((n, s) \<in> set (edges g) \<or> (n, s) \<in> set (reverseEdges g)) \<and> t \<in> set s
        \<longrightarrow> has (nodes g) t)"
proof -
  from buildGraph_cases [OF assms] obtain paths where bf: "built_from parseTags src paths g"
    by blast
  have 1: "has (edges g) n \<and> has (reverseEdges g) n" if "has (nodes g) n" for n
    using that built_from_keys(8,9) [OF bf, of n] by simp
  have 2: "has (nodes g) t"
    if "((n, s) \<in> set (edges g) \<or> (n, s) \<in> set (reverseEdges g)) \<and> t \<in> set s" for n s t
    using that built_from_closed [OF bf, of n s t] by blast
  show ?thesis
    using 1 2 by blast
qed

theorem buildGraph_invariants_witness:
  "buildGraph (\<lambda>c. []) example_source 7 initial_graph = (Inr example_graph, example_graph) \<and>
   has (nodes example_graph) ''C'' \<and> has (edges example_graph) ''C'' \<and>
   has (reverseEdges example_graph) ''C'' \<and>
   (''A'', [''B'', ''C'']) \<in> set (edges example_graph) \<and> has (nodes example_graph) ''B''"
proof -
  have n: "has (nodes example_graph) ''C''"
    by (simp add: example_graph_def has_def)
  have e: "((''A'', [''B'', ''C'']) \<in> set (edges example_graph) \<or>
      (''A'', [''B'', ''C'']) \<in> set (reverseEdges example_graph)) \<and> ''B'' \<in> set [''B'', ''C'']"
    by (simp add: example_graph_def)
  note inv = buildGraph_invariants [OF example_build]
  from inv have "has (nodes example_graph) ''C'' \<longrightarrow>
      has (edges example_graph) ''C'' \<and> has (reverseEdges example_graph) ''C''"
    by blast
  with n have 1: "has (edges example_graph) ''C'' \<and> has (reverseEdges example_graph) ''C''"
    by (rule rev_mp)
  from inv have "\<forall>n s t. ((n, s) \<in> set (edges example_graph) \<or> (n, s) \<in> set (reverseEdges example_graph))
        \<and> t \<in> set s \<longrightarrow> has (nodes example_graph) t"
    by (rule conjunct2)
  then have "((''A'', [''B'', ''C'']) \<in> set (edges example_graph) \<or>
      (''A'', [''B'', ''C'']) \<in> set (reverseEdges example_graph)) \<and> ''B'' \<in> set [''B'', ''C'']
      \<longrightarrow> has (nodes example_graph) ''B''"
    by blast
  with e have 2: "has (nodes example_graph) ''B''"
    by (rule rev_mp)
  have "(''A'', [''B'', ''C'']) \<in> set (edges example_graph)"
    by (simp add: example_graph_def)
  with 1 2 n example_build show ?thesis
    by simp
qed

text \<open>
  Claim C1.  For a listed document \<open>p\<close> whose body was fetched and whose name no other
  listed path derives, the forward set stored under its name is exactly the set of parsed
  link targets of its body that are nodes; each such target has the document's name in its
  reverse set; and no forward or reverse set of the snapshot holds a name that is not a
  node.
\<close>

theorem buildGraph_edges:
  assumes "listAllNotes src = Inr paths" and "p \<in> set paths" and "readNote src p = Inr content"
    and "\<forall>q \<in> set paths. nameFromPath q = nameFromPath p \<longrightarrow> q = p"
  shows "\<exists>g out. buildGraph parseTags src now graph = (Inr g, g) \<and>
      map_of (edges g) (nameFromPath p) = Some out \<and>
      set out = {t \<in> set (parseWikilinks content). has (nodes g) t} \<and>
      (\<forall>t \<in> set out. \<exists>inc. map_of (reverseEdges g) t = Some inc \<and> nameFromPath p \<in> set inc) \<and>
      (\<forall>n s t. ((n, s) \<in> set (edges g) \<or> (n, s) \<in> set (reverseEdges g)) \<and> t \<in> set s
         \<longrightarrow> has (nodes g) t)"
proof -
  from buildGraph_built_from [OF assms(1), of parseTags now graph]
  obtain g where g: "buildGraph parseTags src now graph = (Inr g, g)"
    and bf: "built_from parseTags src paths g"
    by blast
  let ?n = "nameFromPath p"
  let ?out = "get_set (edges g) ?n"
  have "has (nodes g) ?n"
    using assms(2) by (simp add: built_from_keys(7) [OF bf])
  then have out: "map_of (edges g) ?n = Some ?out"
    by (simp add: has_get_set built_from_keys(8) [OF bf])
  have set_out: "set ?out = {t \<in> set (parseWikilinks content). has (nodes g) t}"
  proof (intro set_eqI iffI)
    fix t assume "t \<in> set ?out"
    then obtain q c where q: "q \<in> set paths" "readNote src q = Inr c" "nameFromPath q = ?n"
        "t \<in> set (parseWikilinks c)" "has (nodes g) t"
      unfolding built_from_edges(1) [OF bf] by blast
    from q(1,3) assms(4) have "q = p" by blast
    with q assms(3) show "t \<in> {t \<in> set (parseWikilinks content). has (nodes g) t}"
      by simp
  next
    fix t assume "t \<in> {t \<in> set (parseWikilinks content). has (nodes g) t}"
    then have "p \<in> set paths \<and> readNote src p = Inr content \<and> nameFromPath p = ?n \<and>
        t \<in> set (parseWikilinks content) \<and> has (nodes g) t"
      using assms(2,3) by simp
    then show "t \<in> set ?out"
      unfolding built_from_edges(1) [OF bf] by (intro exI)
  qed
  have rev: "\<exists>inc. map_of (reverseEdges g) t = Some inc \<and> ?n \<in> set inc" if "t \<in> set ?out" for t
  proof -
    from that set_out have t: "t \<in> set (parseWikilinks content)" "has (nodes g) t"
      by auto
    then have m: "map_of (reverseEdges g) t = Some (get_set (reverseEdges g) t)"
      by (simp add: has_get_set built_from_keys(9) [OF bf])
    have "p \<in> set paths \<and> readNote src p = Inr content \<and> nameFromPath p = ?n \<and>
        t \<in> set (parseWikilinks content) \<and> has (nodes g) t"
      using assms(2,3) t by simp
    then have "?n \<in> set (get_set (reverseEdges g) t)"
      unfolding built_from_edges(2) [OF bf] by (intro exI)
    with m show ?thesis by simp
  qed
  have closed: "\<forall>n s t. ((n, s) \<in> set (edges g) \<or> (n, s) \<in> set (reverseEdges g)) \<and> t \<in> set s
      \<longrightarrow> has (nodes g) t"
    using built_from_closed [OF bf] by blast
  show ?thesis
  proof (intro exI conjI)
    show "buildGraph parseTags src now graph = (Inr g, g)" by (rule g)
    show "map_of (edges g) ?n = Some ?out" by (rule out)
    show "set ?out = {t \<in> set (parseWikilinks content). has (nodes g) t}" by (rule set_out)
    show "\<forall>t \<in> set ?out. \<exists>inc. map_of (reverseEdges g) t = Some inc \<and> ?n \<in> set inc"
      using rev by blast
    show "\<forall>n s t. ((n, s) \<in> set (edges g) \<or> (n, s) \<in> set (reverseEdges g)) \<and> t \<in> set s
         \<longrightarrow> has (nodes g) t" by (rule closed)
  qed
qed

theorem buildGraph_edges_witness:
  "\<exists>out. map_of (edges example_graph) (nameFromPath ''A.md'') = Some out \<and>
     set out = {t \<in> set (parseWikilinks ''[[B]] [[C]] #x''). has (nodes example_graph) t}"
proof -
  have 1: "listAllNotes example_source = Inr [''A.md'', ''B.md'', ''C.md'']"
    and 2: "''A.md'' \<in> set [''A.md'', ''B.md'', ''C.md'']"
    and 3: "readNote example_source ''A.md'' = Inr ''[[B]] [[C]] #x''"
    by (simp_all add: example_source_def)
  have 4: "\<forall>q \<in> set [''A.md'', ''B.md'', ''C.md''].
      nameFromPath q = nameFromPath ''A.md'' \<longrightarrow> q = ''A.md''"
    by (simp add: nameFromPath_def strip_md_def)
  from buildGraph_edges [OF 1 2 3 4, of "\<lambda>c. []" 7 initial_graph]
  obtain g out where "buildGraph (\<lambda>c. []) example_source 7 initial_graph = (Inr g, g)"
    and o: "map_of (edges g) (nameFromPath ''A.md'') = Some out"
      "set out = {t \<in> set (parseWikilinks ''[[B]] [[C]] #x''). has (nodes g) t}"
    by blast
  then have "g = example_graph"
    by (simp add: example_build)
  with o show ?thesis
    by blast
qed

lemma make_node_node_of:
  "p \<in> set paths \<Longrightarrow> make_node pt (fetched src paths) p = node_of pt src p"
  by (simp add: make_node_fetched node_of_def body_of_def)

lemma built_from_last_node:
  assumes bf: "built_from pt src (pre @ p # post) g"
    and "\<forall>q \<in> set post. nameFromPath q \<noteq> nameFromPath p"
  shows "map_of (nodes g) (nameFromPath p) = Some (node_of pt src p)"
proof -
  have "filter (\<lambda>q. nameFromPath q = nameFromPath p) post = []"
    using assms(2) by (simp add: filter_empty_conv)
  then have f: "filter (\<lambda>q. nameFromPath q = nameFromPath p) (pre @ p # post) =
      filter (\<lambda>q. nameFromPath q = nameFromPath p) pre @ [p]"
    by simp
  obtain q qs where qs: "filter (\<lambda>q. nameFromPath q = nameFromPath p) pre @ [p] = q # qs"
    by (cases "filter (\<lambda>q. nameFromPath q = nameFromPath p) pre @ [p]") auto
  then have "last (q # qs) = p"
    by (metis last_snoc)
  then have "map_of (nodes g) (nameFromPath p) = Some (make_node pt (fetched src (pre @ p # post)) p)"
    unfolding built_from_node [OF bf] f qs by simp
  then show ?thesis
    by (simp add: make_node_node_of)
qed

definition collision_source :: ContentSource where
  "collision_source =
     \<lparr>listAllNotes = Inr [''a/X.md'', ''b/X.md''],
      readNote = (\<lambda>p. if p = ''a/X.md'' then Inr ''first'' else Inr [])\<rparr>"

definition collision_graph :: Graph where
  "collision_graph =
     \<lparr>nodes = [(''X'', \<lparr>path = ''b/X.md'', name = ''X'', folder = ''b'', tags = [],
                        hasContent = False\<rparr>)],
      edges = [(''X'', [])], reverseEdges = [(''X'', [])], lastRefresh = 0\<rparr>"

lemma collision_build:
  "buildGraph (\<lambda>c. []) collision_source 0 initial_graph = (Inr collision_graph, collision_graph)"
  by code_simp

text \<open>
  Claim C2 says that on a name collision the stored node is the one of the first listed
  path.  With \<open>a/X.md\<close> listed before \<open>b/X.md\<close> the node stored under \<open>X\<close> is the one
  of \<open>b/X.md\<close>.
\<close>

theorem first_writer_counterexample:
  "listAllNotes collision_source = Inr [''a/X.md'', ''b/X.md''] \<and>
   nameFromPath ''a/X.md'' = ''X'' \<and> nameFromPath ''b/X.md'' = ''X'' \<and>
   map_of (nodes (snd (buildGraph (\<lambda>c. []) collision_source 0 initial_graph))) ''X'' =
     Some (node_of (\<lambda>c. []) collision_source ''b/X.md'') \<and>
   node_of (\<lambda>c. []) collision_source ''b/X.md'' \<noteq> node_of (\<lambda>c. []) collision_source ''a/X.md''"
  unfolding collision_build
  by (simp add: collision_source_def collision_graph_def node_of_def body_of_def nameFromPath_def
      strip_md_def folderFromPath_def trim_def)

text \<open>
  Claim C2, amended.  When several listed paths derive one name, the node stored under
  that name is the one constructed from the last such path of the listing.
\<close>

theorem buildGraph_last_writer:
  assumes "listAllNotes src = Inr (pre @ p # post)"
    and "\<forall>q \<in> set post. nameFromPath q \<noteq> nameFromPath p"
  shows "\<exists>g. buildGraph parseTags src now graph = (Inr g, g) \<and>
      map_of (nodes g) (nameFromPath p) = Some (node_of parseTags src p)"
proof -
  from buildGraph_built_from [OF assms(1), of parseTags now graph]
  obtain g where g: "buildGraph parseTags src now graph = (Inr g, g)"
    and bf: "built_from parseTags src (pre @ p # post) g"
    by blast
  from built_from_last_node [OF bf assms(2)] g show ?thesis
    by blast
qed

theorem buildGraph_last_writer_witness:
  "map_of (nodes collision_graph) (nameFromPath ''b/X.md'') =
     Some (node_of (\<lambda>c. []) collision_source ''b/X.md'')"
proof -
  have 1: "listAllNotes collision_source = Inr ([''a/X.md''] @ ''b/X.md'' # [])"
    by (simp add: collision_source_def)
  have 2: "\<forall>q \<in> set []. nameFromPath q \<noteq> nameFromPath ''b/X.md''"
    by simp
  from buildGraph_last_writer [OF 1 2, of "\<lambda>c. []" 0 initial_graph]
  obtain g where "buildGraph (\<lambda>c. []) collision_source 0 initial_graph = (Inr g, g)"
    and n: "map_of (nodes g) (nameFromPath ''b/X.md'') = Some (node_of (\<lambda>c. []) collision_source ''b/X.md'')"
    by blast
  then have "g = collision_graph"
    by (simp add: collision_build)
  with n show ?thesis
    by simp
qed


definition failing_graph :: Graph where
  "failing_graph =
     \<lparr>nodes =
        [(''Y'', \<lparr>path = ''Y.md'', name = ''Y'', folder = [], tags = [], hasContent = False\<rparr>),
         (''X'', \<lparr>path = ''b/X.md'', name = ''X'', folder = ''b'', tags = [], hasContent = False\<rparr>),
         (''D'', \<lparr>path = ''D.md'', name = ''D'', folder = [], tags = [], hasContent = False\<rparr>)],
      edges = [(''Y'', []), (''X'', [''Y'']), (''D'', [])],
      reverseEdges = [(''Y'', [''X'']), (''X'', []), (''D'', [])],
      lastRefresh = 3\<rparr>"









section \<open>Facts about the statistics and the grouping\<close>

lemma distinct_set_add: "distinct s \<Longrightarrow> distinct (set_add s x)"
  by (simp add: set_add_def)

lemma stats_fold_folders:
  assumes "foldl (stats_step g) (l, ts, fs) es = (l', ts', fs')" and "distinct fs"
  shows "distinct fs' \<and> set fs' = set fs \<union> {f. f \<noteq> [] \<and> (\<exists>e \<in> set es. folder (snd e) = f)}"
  using assms
proof (induction es arbitrary: l ts fs)
  case Nil
  then show ?case by simp
next
  case (Cons e es)
  obtain n node where e: "e = (n, node)" by (cases e)
  let ?fs = "if folder node \<noteq> [] then set_add fs (folder node) else fs"
  have step: "stats_step g (l, ts, fs) e = (l + size_of (edges g) n, foldl set_add ts (tags node), ?fs)"
    by (simp add: stats_step_def e)
  have d: "distinct ?fs"
    using Cons.prems(2) by (simp add: distinct_set_add)
  from Cons.prems(1) have "foldl (stats_step g) (l + size_of (edges g) n, foldl set_add ts (tags node), ?fs) es
      = (l', ts', fs')"
    by (simp add: step)
  from Cons.IH [OF this d]
  have "distinct fs'" and s: "set fs' = set ?fs \<union> {f. f \<noteq> [] \<and> (\<exists>e \<in> set es. folder (snd e) = f)}"
    by simp_all
  have "set ?fs = set fs \<union> {f. f \<noteq> [] \<and> folder node = f}"
    by (auto simp: set_set_add)
  with s have "set fs' = set fs \<union> {f. f \<noteq> [] \<and> (\<exists>e \<in> set (e # es). folder (snd e) = f)}"
    unfolding e by auto
  with \<open>distinct fs'\<close> show ?case by simp
qed

lemma getStats_folders_card:
  "folders (getStats round2 g) = card {f. f \<noteq> [] \<and> (\<exists>e \<in> set (nodes g). folder (snd e) = f)}"
proof -
  obtain l ts fs where f: "foldl (stats_step g) (0, [], []) (nodes g) = (l, ts, fs)"
    by (cases "foldl (stats_step g) (0, [], []) (nodes g)") auto
  from stats_fold_folders [OF f]
  have "distinct fs" "set fs = {f. f \<noteq> [] \<and> (\<exists>e \<in> set (nodes g). folder (snd e) = f)}"
    by simp_all
  then have "length fs = card {f. f \<noteq> [] \<and> (\<exists>e \<in> set (nodes g). folder (snd e) = f)}"
    by (metis distinct_card)
  then show ?thesis
    by (simp add: getStats_def f Let_def)
qed

definition folder_key :: "string \<times> GraphNode \<Rightarrow> string" where
  "folder_key e = (if folder (snd e) = [] then ''(root)'' else folder (snd e))"

definition note_of :: "string \<times> GraphNode \<Rightarrow> string \<times> string" where
  "note_of e = (fst e, path (snd e))"

lemma add_to_clusters_folder:
  "add_to_clusters by_folder groups e = push_group groups (folder_key e) (note_of e)"
  by (cases e) (simp add: add_to_clusters_def folder_key_def note_of_def)

lemma map_of_push_group:
  "map_of (push_group groups k x) k' =
     (if k' = k then Some ((case map_of groups k of None \<Rightarrow> [] | Some l \<Rightarrow> l) @ [x])
      else map_of groups k')"
  by (simp add: push_group_def AList.update_conv' split: option.splits)

lemma clusters_fold_member:
  assumes "e \<in> set es"
  shows "\<exists>notes. map_of (foldl (add_to_clusters by_folder) groups es) (folder_key e) = Some notes \<and>
      note_of e \<in> set notes"
  using assms
proof (induction es arbitrary: groups rule: rev_induct)
  case Nil
  then show ?case by simp
next
  case (snoc x xs)
  let ?gs = "foldl (add_to_clusters by_folder) groups xs"
  have st: "foldl (add_to_clusters by_folder) groups (xs @ [x]) =
      push_group ?gs (folder_key x) (note_of x)"
    using add_to_clusters_folder [of ?gs x] by (simp only: foldl_append foldl.simps)
  show ?case
  proof (cases "e = x")
    case True
    then show ?thesis
      unfolding st by (simp add: map_of_push_group)
  next
    case False
    with snoc.prems have "e \<in> set xs" by simp
    from snoc.IH [OF this, of groups]
    obtain members where "map_of ?gs (folder_key e) = Some members" "note_of e \<in> set members"
      by blast
    then show ?thesis
      unfolding st by (cases "folder_key e = folder_key x") (auto simp: map_of_push_group)
  qed
qed

lemma set_sort_desc: "set (sort_desc key xs) = set xs"
  by (simp add: sort_desc_def)

lemma clusters_fold_root:
  assumes "\<forall>e \<in> set es. folder (snd e) = []"
  shows "foldl (add_to_clusters by_folder) [(''(root)'', l)] es = [(''(root)'', l @ map note_of es)]"
  using assms
proof (induction es arbitrary: l)
  case Nil
  show ?case by simp
next
  case (Cons e es)
  then have k: "folder_key e = ''(root)''"
    by (simp add: folder_key_def)
  have "add_to_clusters by_folder [(''(root)'', l)] e = [(''(root)'', l @ [note_of e])]"
    by (simp add: add_to_clusters_folder k push_group_def)
  then show ?case
    using Cons by simp
qed

lemma getClusters_root:
  assumes "nodes g \<noteq> []" and "\<forall>e \<in> set (nodes g). folder (snd e) = []"
  shows "getClusters g by_folder = [(''(root)'', map note_of (nodes g))]"
proof -
  from assms(1) obtain e es where n: "nodes g = e # es"
    by (cases "nodes g") auto
  with assms(2) have k: "folder_key e = ''(root)''" and r: "\<forall>e \<in> set es. folder (snd e) = []"
    by (simp_all add: folder_key_def)
  have "add_to_clusters by_folder [] e = [(''(root)'', [note_of e])]"
    by (simp add: add_to_clusters_folder k push_group_def)
  then have "foldl (add_to_clusters by_folder) [] (nodes g) = [(''(root)'', map note_of (nodes g))]"
    using clusters_fold_root [OF r, of "[note_of e]"] by (simp add: n)
  then show ?thesis
    by (simp add: getClusters_def sort_desc_def)
qed

text \<open>
  Claim C10.  The folder count of \<open>getStats\<close> is the number of distinct non-empty folder
  labels of the nodes, so it is 0 when every note lives at the root; grouping by folder
  puts every node with the empty folder into the \<open>(root)\<close> bucket, and for a non-empty
  graph whose notes all live at the root it returns that one bucket with all the notes.
\<close>

theorem getStats_folders:
  "folders (getStats round2 g) = card {f. f \<noteq> [] \<and> (\<exists>e \<in> set (nodes g). folder (snd e) = f)} \<and>
   ((\<forall>e \<in> set (nodes g). folder (snd e) = []) \<longrightarrow> folders (getStats round2 g) = 0) \<and>
   (\<forall>e \<in> set (nodes g). folder (snd e) = [] \<longrightarrow>
      (\<exists>notes. (''(root)'', notes) \<in> set (getClusters g by_folder) \<and> (fst e, path (snd e)) \<in> set notes)) \<and>
   (nodes g \<noteq> [] \<and> (\<forall>e \<in> set (nodes g). folder (snd e) = []) \<longrightarrow>
      getClusters g by_folder = [(''(root)'', map (\<lambda>e. (fst e, path (snd e))) (nodes g))])"
proof (intro conjI ballI impI)
  show c: "folders (getStats round2 g) = card {f. f \<noteq> [] \<and> (\<exists>e \<in> set (nodes g). folder (snd e) = f)}"
    by (rule getStats_folders_card)
  show "folders (getStats round2 g) = 0" if "\<forall>e \<in> set (nodes g). folder (snd e) = []"
  proof -
    from that have "{f. f \<noteq> [] \<and> (\<exists>e \<in> set (nodes g). folder (snd e) = f)} = {}"
      by auto
    then show ?thesis
      by (simp add: c)
  qed
  show "\<exists>notes. (''(root)'', notes) \<in> set (getClusters g by_folder) \<and> (fst e, path (snd e)) \<in> set notes"
    if "e \<in> set (nodes g)" and "folder (snd e) = []" for e
  proof -
    from clusters_fold_member [OF that(1), of "[]"]
    obtain members where "map_of (foldl (add_to_clusters by_folder) [] (nodes g)) (folder_key e) = Some members"
      and m: "note_of e \<in> set members"
      by blast
    then have "(''(root)'', members) \<in> set (foldl (add_to_clusters by_folder) [] (nodes g))"
      using that(2) by (auto simp: folder_key_def dest: map_of_SomeD)
    then have "(''(root)'', members) \<in> set (getClusters g by_folder)"
      by (simp add: getClusters_def set_sort_desc)
    with m show ?thesis
      by (auto simp: note_of_def)
  qed
  show "getClusters g by_folder = [(''(root)'', map (\<lambda>e. (fst e, path (snd e))) (nodes g))]"
    if "nodes g \<noteq> [] \<and> (\<forall>e \<in> set (nodes g). folder (snd e) = [])"
  proof -
    have "note_of = (\<lambda>e. (fst e, path (snd e)))"
      by (auto simp: note_of_def)
    with getClusters_root [of g] that show ?thesis
      by simp
  qed
qed

theorem getStats_folders_witness:
  "nodes example_graph \<noteq> [] \<and> folders (getStats (\<lambda>l n. 1) example_graph) = 0 \<and>
   getClusters example_graph by_folder =
     [(''(root)'', [(''A'', ''A.md''), (''B'', ''B.md''), (''C'', ''C.md'')])]"
proof -
  have h: "nodes example_graph \<noteq> [] \<and> (\<forall>e \<in> set (nodes example_graph). folder (snd e) = [])"
    by (simp add: example_graph_def)
  note t = getStats_folders [of "\<lambda>l n. 1" example_graph]
  from t h have "folders (getStats (\<lambda>l n. 1) example_graph) = 0"
    by blast
  moreover from t h have "getClusters example_graph by_folder =
      [(''(root)'', map (\<lambda>e. (fst e, path (snd e))) (nodes example_graph))]"
    by blast
  ultimately show ?thesis
    using h by (simp add: example_graph_def)
qed

section \<open>Queries read the nodes and the two adjacency maps only\<close>

declare queryRelated_loop.simps [simp del] findPath_loop.simps [simp del]

definition same_links :: "Graph \<Rightarrow> Graph \<Rightarrow> bool" where
  "same_links g g' \<longleftrightarrow> nodes g = nodes g' \<and> edges g = edges g' \<and> reverseEdges g = reverseEdges g'"

lemma same_links_neighbors: "same_links g g' \<Longrightarrow> neighbors g = neighbors g'"
  by (auto simp: same_links_def neighbors_def)

lemma same_links_queryRelated_loop:
  "same_links g g' \<Longrightarrow>
   queryRelated_loop g depth results visited queue = queryRelated_loop g' depth results visited queue"
proof (induction g depth results visited queue rule: queryRelated_loop.induct)
  case (1 g depth results visited)
  show ?case by (simp only: queryRelated_loop.simps)
next
  case (2 g depth results visited n d queue)
  have nb: "neighbors g' = neighbors g"
    using same_links_neighbors [OF "2.prems"] by simp
  have nd: "nodes g' = nodes g"
    using "2.prems" by (simp add: same_links_def)
  let ?R = "if d > 0 then
               (case map_of (nodes g) n of
                  Some node \<Rightarrow> results @ [(n, path node, d)]
                | None \<Rightarrow> results)
             else results"
  let ?S = "if of_nat d < depth then foldl (visit d) (visited, queue) (neighbors g n)
                else (visited, queue)"
  have "queryRelated_loop g depth results visited ((n, d) # queue) =
      queryRelated_loop g depth ?R (fst ?S) (snd ?S)"
    by (simp only: queryRelated_loop.simps Let_def)
  also have "\<dots> = queryRelated_loop g' depth ?R (fst ?S) (snd ?S)"
    by (rule "2.IH" [OF refl refl "2.prems"])
  also have "\<dots> = queryRelated_loop g' depth results visited ((n, d) # queue)"
    by (simp only: queryRelated_loop.simps Let_def nb nd)
  finally show ?case .
qed

lemma same_links_findPath_loop:
  "same_links g g' \<Longrightarrow>
   findPath_loop g toName visited parent queue = findPath_loop g' toName visited parent queue"
proof (induction g toName visited parent queue rule: findPath_loop.induct)
  case (1 g toName visited parent)
  show ?case by (simp only: findPath_loop.simps)
next
  case (2 g toName visited parent current queue)
  have nb: "neighbors g' = neighbors g"
    using same_links_neighbors [OF "2.prems"] by simp
  show ?case
  proof (cases "scan_neighbors toName current (visited, parent, queue) (neighbors g current)")
    case (Inl found)
    then show ?thesis
      by (simp only: findPath_loop.simps nb sum.case)
  next
    case (Inr st)
    obtain v p q where st: "st = (v, p, q)" by (cases st) auto
    have "findPath_loop g toName v p q = findPath_loop g' toName v p q"
      by (rule "2.IH" [OF Inr [unfolded st] refl refl "2.prems"])
    then show ?thesis
      by (simp only: findPath_loop.simps nb Inr st sum.case prod.case)
  qed
qed

lemma same_links_queries:
  assumes "same_links g g'"
  shows "queryRelated g = queryRelated g'" and "findPath g = findPath g'"
    and "getHubs g = getHubs g'" and "getOrphans g = getOrphans g'"
    and "getClusters g = getClusters g'"
    and "getStats round2 g' = (getStats round2 g)\<lparr>lastRefreshISO := lastRefresh g'\<rparr>"
proof -
  have eq: "nodes g' = nodes g" "edges g' = edges g" "reverseEdges g' = reverseEdges g"
    using assms by (simp_all add: same_links_def)
  show "queryRelated g = queryRelated g'"
    by (intro ext) (simp only: queryRelated_def same_links_queryRelated_loop [OF assms])
  show "findPath g = findPath g'"
    by (intro ext) (simp only: findPath_def same_links_findPath_loop [OF assms] eq)
  show "getHubs g = getHubs g'"
    by (intro ext) (simp only: getHubs_def eq)
  show o: "getOrphans g = getOrphans g'"
    by (simp only: getOrphans_def eq)
  show "getClusters g = getClusters g'"
    by (intro ext) (simp only: getClusters_def eq)
  have s: "stats_step g' = stats_step g"
    by (intro ext) (simp only: stats_step_def eq)
  obtain l ts fs where f: "foldl (stats_step g) (0, [], []) (nodes g) = (l, ts, fs)"
    by (cases "foldl (stats_step g) (0, [], []) (nodes g)") auto
  show "getStats round2 g' = (getStats round2 g)\<lparr>lastRefreshISO := lastRefresh g'\<rparr>"
    by (simp add: getStats_def eq o s f Let_def)
qed

lemma buildGraph_again:
  assumes "buildGraph pt src now graph = (Inr g, g')"
  shows "buildGraph pt src now2 graph2 = (Inr (g\<lparr>lastRefresh := now2\<rparr>), g\<lparr>lastRefresh := now2\<rparr>)"
proof -
  from assms obtain paths where p: "listAllNotes src = Inr paths"
    by (cases "listAllNotes src") (auto simp: buildGraph_def)
  let ?nc = "read_batches src paths 0 []"
  let ?built = "foldl (add_node pt ?nc) ([], [], []) paths"
  from assms p obtain linked where l: "for_each (add_links (fst ?built)) (snd ?built) ?nc = Inr linked"
    by (cases "for_each (add_links (fst ?built)) (snd ?built) ?nc")
      (auto simp: buildGraph_def Let_def simp del: read_batches.simps)
  from assms have "g = \<lparr>nodes = fst ?built, edges = fst linked, reverseEdges = snd linked, lastRefresh = now\<rparr>"
    by (simp add: buildGraph_def p l Let_def del: read_batches.simps)
  then show ?thesis
    by (simp add: buildGraph_def p l Let_def del: read_batches.simps)
qed

text \<open>
  Claim C8.  With one content source, a second run of \<open>buildGraph\<close> returns a snapshot with
  the same nodes and the same forward and reverse adjacency as the first; the time stamp
  alone may differ, and every query returns the same result on both snapshots
  (\<open>getStats\<close> up to the time stamp).
\<close>

theorem buildGraph_idempotent:
  assumes "listAllNotes src = Inr paths"
  shows "\<exists>g1 g2. buildGraph parseTags src now1 graph = (Inr g1, g1) \<and>
      buildGraph parseTags src now2 g1 = (Inr g2, g2) \<and>
      nodes g2 = nodes g1 \<and> edges g2 = edges g1 \<and> reverseEdges g2 = reverseEdges g1 \<and>
      queryRelated g2 = queryRelated g1 \<and> findPath g2 = findPath g1 \<and>
      getHubs g2 = getHubs g1 \<and> getOrphans g2 = getOrphans g1 \<and>
      getClusters g2 = getClusters g1 \<and>
      getStats round2 g2 = (getStats round2 g1)\<lparr>lastRefreshISO := now2\<rparr>"
proof -
  from buildGraph_built_from [OF assms, of parseTags now1 graph]
  obtain g1 where g1: "buildGraph parseTags src now1 graph = (Inr g1, g1)"
    by blast
  let ?g2 = "g1\<lparr>lastRefresh := now2\<rparr>"
  have g2: "buildGraph parseTags src now2 g1 = (Inr ?g2, ?g2)"
    using g1 by (rule buildGraph_again)
  have s: "same_links g1 ?g2"
    by (simp add: same_links_def)
  show ?thesis
  proof (intro exI conjI)
    show "buildGraph parseTags src now1 graph = (Inr g1, g1)" by (rule g1)
    show "buildGraph parseTags src now2 g1 = (Inr ?g2, ?g2)" by (rule g2)
    show "nodes ?g2 = nodes g1" "edges ?g2 = edges g1" "reverseEdges ?g2 = reverseEdges g1"
      by simp_all
    show "queryRelated ?g2 = queryRelated g1" "findPath ?g2 = findPath g1"
      "getHubs ?g2 = getHubs g1" "getOrphans ?g2 = getOrphans g1" "getClusters ?g2 = getClusters g1"
      using same_links_queries(1-5) [OF s] by simp_all
    show "getStats round2 ?g2 = (getStats round2 g1)\<lparr>lastRefreshISO := now2\<rparr>"
      using same_links_queries(6) [OF s, of round2] by simp
  qed
qed

theorem buildGraph_idempotent_witness:
  "buildGraph (\<lambda>c. []) example_source 9 example_graph =
     (Inr (example_graph\<lparr>lastRefresh := 9\<rparr>), example_graph\<lparr>lastRefresh := 9\<rparr>) \<and>
   queryRelated (example_graph\<lparr>lastRefresh := 9\<rparr>) = queryRelated example_graph \<and>
   findPath (example_graph\<lparr>lastRefresh := 9\<rparr>) = findPath example_graph"
proof -
  have l: "listAllNotes example_source = Inr [''A.md'', ''B.md'', ''C.md'']"
    by (simp add: example_source_def)
  from buildGraph_idempotent [OF l, of "\<lambda>c. []" 7 initial_graph 9 "\<lambda>l n. 0"]
  obtain g1 g2 where g: "buildGraph (\<lambda>c. []) example_source 7 initial_graph = (Inr g1, g1)"
      "buildGraph (\<lambda>c. []) example_source 9 g1 = (Inr g2, g2)"
      "nodes g2 = nodes g1" "edges g2 = edges g1" "reverseEdges g2 = reverseEdges g1"
    and q: "queryRelated g2 = queryRelated g1" "findPath g2 = findPath g1"
    by blast
  from g(1) have g1: "g1 = example_graph"
    by (simp add: example_build)
  have "buildGraph (\<lambda>c. []) example_source 9 example_graph =
     (Inr (example_graph\<lparr>lastRefresh := 9\<rparr>), example_graph\<lparr>lastRefresh := 9\<rparr>)"
    by code_simp
  with g(2) g1 have "g2 = example_graph\<lparr>lastRefresh := 9\<rparr>"
    by simp
  with q g1 g(2) show ?thesis
    by simp
qed

section \<open>Facts about the link parser\<close>

text \<open>
  The three forms in the words of the specification: \<open>[[Target]]\<close>, \<open>[[Target|Display]]\<close>
  and \<open>[[Target#Section]]\<close>, where the target is a non-empty run of characters other than
  \<open>]\<close>, \<open>|\<close> and \<open>#\<close> and the display text or section a non-empty run of characters other
  than \<open>]\<close>.  \<open>occurs_in text target\<close>: a link with this target stands somewhere in the text.
\<close>

definition is_wikilink :: "string \<Rightarrow> string \<Rightarrow> bool" where
  "is_wikilink w target \<longleftrightarrow>
     target \<noteq> [] \<and> list_all target_char target \<and>
     (w = ''[['' @ target @ '']]'' \<or>
      (\<exists>c d. (c = CHR ''|'' \<or> c = CHR ''#'') \<and> d \<noteq> [] \<and> list_all alias_char d \<and>
         w = ''[['' @ target @ [c] @ d @ '']]''))"

definition occurs_in :: "string \<Rightarrow> string \<Rightarrow> bool" where
  "occurs_in text target \<longleftrightarrow> (\<exists>pre w post. text = pre @ w @ post \<and> is_wikilink w target)"

lemma takeWhile_run:
  "list_all P xs \<Longrightarrow> \<not> P y \<Longrightarrow> takeWhile P (xs @ y # r) = xs"
  by (induction xs) auto

lemma dropWhile_run:
  "list_all P xs \<Longrightarrow> \<not> P y \<Longrightarrow> dropWhile P (xs @ y # r) = y # r"
  by (induction xs) auto

lemma wikilink_at_form:
  assumes "is_wikilink w target"
  shows "wikilink_at (w @ rest) = Some (target, rest)"
proof -
  from assms have t: "target \<noteq> []" "list_all target_char target"
    by (simp_all add: is_wikilink_def)
  from assms consider (plain) "w = ''[['' @ target @ '']]''"
    | (piped) c d where "c = CHR ''|'' \<or> c = CHR ''#''" "d \<noteq> []" "list_all alias_char d"
        "w = ''[['' @ target @ [c] @ d @ '']]''"
    by (auto simp: is_wikilink_def)
  then show ?thesis
  proof cases
    case plain
    have "takeWhile target_char (target @ CHR '']'' # CHR '']'' # rest) = target"
      "dropWhile target_char (target @ CHR '']'' # CHR '']'' # rest) = CHR '']'' # CHR '']'' # rest"
      using t(2) by (simp_all add: takeWhile_run dropWhile_run target_char_def)
    then show ?thesis
      using t(1) by (simp add: wikilink_at_def plain)
  next
    case piped
    have nt: "\<not> target_char c"
      using piped(1) by (auto simp: target_char_def)
    have 1: "takeWhile target_char (target @ c # d @ CHR '']'' # CHR '']'' # rest) = target"
      "dropWhile target_char (target @ c # d @ CHR '']'' # CHR '']'' # rest) =
         c # d @ CHR '']'' # CHR '']'' # rest"
      using t(2) nt by (simp_all add: takeWhile_run dropWhile_run)
    have 2: "takeWhile alias_char (d @ CHR '']'' # CHR '']'' # rest) = d"
      "dropWhile alias_char (d @ CHR '']'' # CHR '']'' # rest) = CHR '']'' # CHR '']'' # rest"
      using piped(3) by (simp_all add: takeWhile_run dropWhile_run alias_char_def)
    have c: "c \<noteq> CHR '']''"
      using piped(1) by auto
    show ?thesis
      using t(1) piped(1,2) c by (auto simp: wikilink_at_def piped(4) 1 2)
  qed
qed

lemma list_all_takeWhile: "list_all P (takeWhile P xs)"
  by (induction xs) auto

lemma take2_eq: "take 2 s = [a, b] \<Longrightarrow> s = a # b # drop 2 s"
  by (cases s; cases "tl s") auto

lemma wikilink_at_is_form:
  assumes "wikilink_at s = Some (target, rest)"
  shows "\<exists>w. s = w @ rest \<and> is_wikilink w target"
proof -
  let ?s1 = "drop 2 s"
  let ?s2 = "dropWhile target_char ?s1"
  from assms have o: "take 2 s = ''[[''"
    by (auto simp: wikilink_at_def split: if_splits)
  then have s: "s = ''[['' @ ?s1"
    using take2_eq [of s "CHR ''[''" "CHR ''[''"] by simp
  from assms o have tg: "target = takeWhile target_char ?s1" "target \<noteq> []"
    by (auto simp: wikilink_at_def Let_def split: if_splits)
  have s1: "?s1 = target @ ?s2"
    by (simp add: tg(1))
  have at: "list_all target_char target"
    by (simp add: tg(1) list_all_takeWhile)
  show ?thesis
  proof (cases "take 2 ?s2 = '']]''")
    case True
    with assms o tg have r: "rest = drop 2 ?s2"
      by (auto simp: wikilink_at_def Let_def split: if_splits)
    from True have "?s2 = '']]'' @ rest"
      using take2_eq [of ?s2 "CHR '']''" "CHR '']''"] by (simp add: r)
    with s s1 have "s = (''[['' @ target @ '']]'') @ rest"
      by (metis append.assoc)
    moreover have "is_wikilink (''[['' @ target @ '']]'') target"
      using tg(2) at by (simp add: is_wikilink_def)
    ultimately show ?thesis by blast
  next
    case False
    let ?s3 = "tl ?s2"
    let ?d = "takeWhile alias_char ?s3"
    let ?s4 = "dropWhile alias_char ?s3"
    from assms o tg False have c: "?s2 \<noteq> []" "hd ?s2 = CHR ''|'' \<or> hd ?s2 = CHR ''#''"
      and d: "?d \<noteq> []" and e: "take 2 ?s4 = '']]''" and r: "rest = drop 2 ?s4"
      by (auto simp: wikilink_at_def Let_def split: if_splits)
    from e have "?s4 = '']]'' @ rest"
      using take2_eq [of ?s4 "CHR '']''" "CHR '']''"] by (simp add: r)
    moreover have "?s3 = ?d @ ?s4"
      by simp
    moreover have "?s2 = hd ?s2 # ?s3"
      using c(1) by simp
    ultimately have "s = (''[['' @ target @ [hd ?s2] @ ?d @ '']]'') @ rest"
      using s s1 by (metis append.assoc append_Cons append_Nil)
    moreover have "is_wikilink (''[['' @ target @ [hd ?s2] @ ?d @ '']]'') target"
      unfolding is_wikilink_def using tg(2) at c(2) d list_all_takeWhile [of alias_char ?s3]
      by blast
    ultimately show ?thesis by blast
  qed
qed

lemma parseWikilinks_sound:
  "x \<in> set (parseWikilinks content) \<Longrightarrow> \<exists>target. occurs_in content target \<and> x = trim target"
proof (induction content rule: parseWikilinks.induct)
  case 1
  then show ?case by simp
next
  case (2 c cs)
  show ?case
  proof (cases "wikilink_at (c # cs)")
    case None
    with "2.prems" have "x \<in> set (parseWikilinks cs)" by simp
    from "2.IH"(1) [OF None this] obtain target where "occurs_in cs target" "x = trim target"
      by blast
    moreover from this(1) have "occurs_in (c # cs) target"
      unfolding occurs_in_def by (metis append_Cons)
    ultimately show ?thesis by blast
  next
    case (Some m)
    obtain target rest where m: "m = (target, rest)" by (cases m)
    from wikilink_at_is_form [OF Some [unfolded m]]
    obtain w where w: "c # cs = w @ rest" "is_wikilink w target" by blast
    from "2.prems" Some m have "x = trim target \<or> x \<in> set (parseWikilinks rest)"
      by simp
    then show ?thesis
    proof
      assume "x = trim target"
      moreover have "occurs_in (c # cs) target"
        unfolding occurs_in_def using w by (metis append_Nil)
      ultimately show ?thesis by blast
    next
      assume "x \<in> set (parseWikilinks rest)"
      from "2.IH"(2) [OF Some [unfolded m] refl this]
      obtain t where "occurs_in rest t" "x = trim t" by blast
      moreover from this(1) have "occurs_in (c # cs) t"
        unfolding occurs_in_def w(1) by (metis append.assoc)
      ultimately show ?thesis by blast
    qed
  qed
qed

text \<open>
  Claim C9 says that the target of every occurrence of a link form is returned.  In
  \<open>[[[A]]\<close> the link \<open>[[A]]\<close> stands at offset 1, yet the only result is \<open>[A\<close>: the
  match that starts at offset 0 covers it.
\<close>

theorem every_occurrence_counterexample:
  "''[[[A]]'' = ''['' @ ''[[A]]'' @ [] \<and> is_wikilink ''[[A]]'' ''A'' \<and>
   occurs_in ''[[[A]]'' ''A'' \<and> parseWikilinks ''[[[A]]'' = [''[A''] \<and>
   trim ''A'' \<notin> set (parseWikilinks ''[[[A]]'')"
proof -
  have w: "is_wikilink ''[[A]]'' ''A''"
    by (simp add: is_wikilink_def target_char_def)
  have "''[[[A]]'' = ''['' @ ''[[A]]'' @ []"
    by simp
  with w have o: "occurs_in ''[[[A]]'' ''A''"
    unfolding occurs_in_def by blast
  have p: "parseWikilinks ''[[[A]]'' = [''[A'']"
    by code_simp
  have "trim ''A'' = ''A''"
    by code_simp
  with w o p show ?thesis
    by simp
qed

text \<open>
  Claim C9, amended.  \<open>parseWikilinks\<close> scans from left to right: where the text starts with
  a link of one of the three forms (target: a non-empty run without \<open>]\<close>, \<open>|\<close>, \<open>#\<close>; display
  text or section: a non-empty run without \<open>]\<close>), it returns the trimmed target first and
  goes on after the closing \<open>]]\<close>; where it starts with no link it goes on one character
  later.  So the results are, in order, the trimmed targets of the links that do not overlap
  an earlier reported one; each result is the trimmed target of a link that occurs in the
  text; and a link has no \<open>]\<close> before its closing \<open>]]\<close>.
\<close>

theorem parseWikilinks_scan:
  "parseWikilinks [] = [] \<and>
   (is_wikilink w target \<longrightarrow> parseWikilinks (w @ rest) = trim target # parseWikilinks rest) \<and>
   ((\<forall>w target rest. is_wikilink w target \<longrightarrow> c # cs \<noteq> w @ rest) \<longrightarrow>
      parseWikilinks (c # cs) = parseWikilinks cs) \<and>
   (\<forall>x \<in> set (parseWikilinks content). \<exists>target. occurs_in content target \<and> x = trim target) \<and>
   (is_wikilink w target \<longrightarrow> CHR '']'' \<notin> set (take (length w - 2) w))"
proof (intro conjI impI ballI)
  show "parseWikilinks [] = []" by simp
next
  assume w: "is_wikilink w target"
  then obtain a v where v: "w = a # v"
    by (cases w) (auto simp: is_wikilink_def)
  have "wikilink_at ((a # v) @ rest) = Some (target, rest)"
    using wikilink_at_form [OF w, of rest] by (simp add: v)
  then show "parseWikilinks (w @ rest) = trim target # parseWikilinks rest"
    by (simp add: v)
next
  assume n: "\<forall>w target rest. is_wikilink w target \<longrightarrow> c # cs \<noteq> w @ rest"
  have "wikilink_at (c # cs) = None"
  proof (rule ccontr)
    assume "wikilink_at (c # cs) \<noteq> None"
    then obtain target rest where "wikilink_at (c # cs) = Some (target, rest)"
      by auto
    from wikilink_at_is_form [OF this] n show False
      by blast
  qed
  then show "parseWikilinks (c # cs) = parseWikilinks cs"
    by simp
next
  fix x assume "x \<in> set (parseWikilinks content)"
  then show "\<exists>target. occurs_in content target \<and> x = trim target"
    by (rule parseWikilinks_sound)
next
  assume w: "is_wikilink w target"
  then have t: "CHR '']'' \<notin> set target"
    by (auto simp: is_wikilink_def list_all_iff target_char_def)
  from w consider "w = ''[['' @ target @ '']]''"
    | c d where "c = CHR ''|'' \<or> c = CHR ''#''" "list_all alias_char d"
        "w = ''[['' @ target @ [c] @ d @ '']]''"
    by (auto simp: is_wikilink_def)
  then show "CHR '']'' \<notin> set (take (length w - 2) w)"
  proof cases
    case 1
    then have "take (length w - 2) w = ''[['' @ target"
      by simp
    with t show ?thesis by simp
  next
    case 2
    then have "take (length w - 2) w = ''[['' @ target @ [c] @ d"
      by simp
    moreover have "CHR '']'' \<notin> set d"
      using 2(2) by (auto simp: list_all_iff alias_char_def)
    ultimately show ?thesis
      using t 2(1) by auto
  qed
qed

theorem parseWikilinks_scan_witness:
  "is_wikilink ''[[B|x]]'' ''B'' \<and>
   parseWikilinks (''[[B|x]]'' @ '' [[ C #s]]'') = trim ''B'' # parseWikilinks '' [[ C #s]]'' \<and>
   parseWikilinks ''[[B|x]] [[ C #s]]'' = [''B'', ''C'']"
proof -
  have "\<exists>c d. (c = CHR ''|'' \<or> c = CHR ''#'') \<and> d \<noteq> [] \<and> list_all alias_char d \<and>
      ''[[B|x]]'' = ''[['' @ ''B'' @ [c] @ d @ '']]''"
    by (rule exI [of _ "CHR ''|''"], rule exI [of _ "''x''"]) (simp add: alias_char_def)
  then have w: "is_wikilink ''[[B|x]]'' ''B''"
    by (simp add: is_wikilink_def target_char_def)
  from parseWikilinks_scan [of "''[[B|x]]''" "''B''" "'' [[ C #s]]''"] w
  have "parseWikilinks (''[[B|x]]'' @ '' [[ C #s]]'') = trim ''B'' # parseWikilinks '' [[ C #s]]''"
    by blast
  moreover have "parseWikilinks ''[[B|x]] [[ C #s]]'' = [''B'', ''C'']"
    by code_simp
  ultimately show ?thesis
    using w by simp
qed

section \<open>The undirected view and shortest distances\<close>

text \<open>
  The undirected view of the specification: \<open>b\<close> is adjacent to \<open>a\<close> when it is in the
  forward or in the reverse adjacency set of \<open>a\<close>.  A chain is a non-empty sequence of
  names in which each name is adjacent to the one before; it has one hop less than
  names.
\<close>

definition adjacent :: "Graph \<Rightarrow> string \<Rightarrow> string \<Rightarrow> bool" where
  "adjacent g a b \<longleftrightarrow> b \<in> set (get_set (edges g) a) \<union> set (get_set (reverseEdges g) a)"

fun chain :: "Graph \<Rightarrow> string list \<Rightarrow> bool" where
  "chain g [] = False"
| "chain g [a] = True"
| "chain g (a # b # p) = (adjacent g a b \<and> chain g (b # p))"

definition connects :: "Graph \<Rightarrow> string list \<Rightarrow> string \<Rightarrow> string \<Rightarrow> bool" where
  "connects g p a b \<longleftrightarrow> chain g p \<and> hd p = a \<and> last p = b"

inductive walk :: "Graph \<Rightarrow> string \<Rightarrow> nat \<Rightarrow> string \<Rightarrow> bool" for g a where
  walk_start: "walk g a 0 a"
| walk_step: "walk g a n x \<Longrightarrow> adjacent g x y \<Longrightarrow> walk g a (Suc n) y"

definition hops :: "Graph \<Rightarrow> string \<Rightarrow> string \<Rightarrow> nat" where
  "hops g a x = (LEAST n. walk g a n x)"

lemma set_neighbors: "set (neighbors g a) = {b. adjacent g a b}"
  by (auto simp: neighbors_def set_new_Set adjacent_def)

lemma hops_le: "walk g a n x \<Longrightarrow> hops g a x \<le> n"
  unfolding hops_def by (rule Least_le)

lemma walk_hops: "walk g a n x \<Longrightarrow> walk g a (hops g a x) x"
  unfolding hops_def by (rule LeastI)

lemma hops_self: "hops g a a = 0"
  using hops_le [OF walk_start, of g a] by simp

lemma hops_adjacent:
  assumes "walk g a n x" and "adjacent g x y"
  shows "hops g a y \<le> Suc (hops g a x)"
  using hops_le [OF walk_step [OF walk_hops [OF assms(1)] assms(2)]] .

lemma walk_prepend: "walk g b n x \<Longrightarrow> adjacent g a b \<Longrightarrow> walk g a (Suc n) x"
proof (induction rule: walk.induct)
  case walk_start
  show ?case
    using walk_step [OF walk.walk_start [of g a] walk_start] .
next
  case (walk_step n x y)
  from walk.walk_step [OF walk_step.IH [OF walk_step.prems] walk_step.hyps(2)] show ?case .
qed

lemma chain_walk: "chain g p \<Longrightarrow> walk g (hd p) (length p - 1) (last p)"
proof (induction g p rule: chain.induct)
  case (1 g)
  then show ?case by simp
next
  case (2 g a)
  show ?case by (simp add: walk_start)
next
  case (3 g a b p)
  then have "walk g b (length p) (last (b # p))" and "adjacent g a b"
    by simp_all
  from walk_prepend [OF this] show ?case
    by simp
qed

lemma chain_snoc: "chain g p \<Longrightarrow> adjacent g (last p) y \<Longrightarrow> chain g (p @ [y])"
  by (induction g p rule: chain.induct) auto


lemma connects_hops: "connects g p a b \<Longrightarrow> hops g a b \<le> length p - 1"
  using hops_le [OF chain_walk, of g p] by (auto simp: connects_def)

section \<open>The breadth-first invariant\<close>

text \<open>
  \<open>V\<close> is the visited set, \<open>Q\<close> the names in the queue, \<open>E\<close> tells which names are
  expanded when they leave the queue.
\<close>

definition bfs_inv :: "Graph \<Rightarrow> string \<Rightarrow> (string \<Rightarrow> bool) \<Rightarrow> string set \<Rightarrow> string list \<Rightarrow> bool" where
  "bfs_inv g a E V Q \<longleftrightarrow>
     a \<in> V \<and> set Q \<subseteq> V \<and> distinct Q \<and>
     (\<forall>x \<in> V. \<exists>n. walk g a n x) \<and>
     sorted (map (hops g a) Q) \<and>
     (\<forall>x \<in> set Q. \<forall>y \<in> set Q. hops g a x \<le> Suc (hops g a y)) \<and>
     (\<forall>x \<in> V - set Q. \<forall>y \<in> set Q. hops g a x \<le> hops g a y) \<and>
     (\<forall>x \<in> V - set Q. E x \<longrightarrow> (\<forall>y. adjacent g x y \<longrightarrow> y \<in> V))"

definition downward :: "Graph \<Rightarrow> string \<Rightarrow> (string \<Rightarrow> bool) \<Rightarrow> bool" where
  "downward g a E \<longleftrightarrow> (\<forall>x y. E x \<and> hops g a y \<le> hops g a x \<longrightarrow> E y)"

lemma bfs_inv_init: "bfs_inv g a E {a} [a]"
  using walk_start [of g a] by (auto simp: bfs_inv_def)

lemma bfs_inv_near:
  assumes inv: "bfs_inv g a E V (c # Q)" and dw: "downward g a E" and e: "E c"
    and w: "walk g a k y" and k: "k \<le> hops g a c"
  shows "y \<in> V"
  using w k
proof (induction rule: walk.induct)
  case walk_start
  show ?case using inv by (simp add: bfs_inv_def)
next
  case (walk_step n x y)
  then have x: "x \<in> V" by simp
  have lt: "hops g a x < hops g a c"
    using hops_le [OF walk_step.hyps(1)] walk_step.prems by simp
  have "x \<notin> set (c # Q)"
  proof
    assume "x \<in> set (c # Q)"
    moreover from inv have "sorted (map (hops g a) (c # Q))"
      by (simp add: bfs_inv_def)
    ultimately have "hops g a c \<le> hops g a x"
      by auto
    with lt show False by simp
  qed
  with x have px: "x \<in> V - set (c # Q)" by simp
  have "E x"
    using dw e lt unfolding downward_def by (meson less_imp_le)
  moreover from inv px have "E x \<longrightarrow> (\<forall>y. adjacent g x y \<longrightarrow> y \<in> V)"
    unfolding bfs_inv_def by blast
  ultimately show ?case
    using walk_step.hyps(2) by blast
qed

lemma bfs_invD:
  assumes "bfs_inv g a E V Q"
  shows "a \<in> V" and "set Q \<subseteq> V" and "distinct Q"
    and "x \<in> V \<Longrightarrow> \<exists>n. walk g a n x"
    and "sorted (map (hops g a) Q)"
    and "x \<in> set Q \<Longrightarrow> y \<in> set Q \<Longrightarrow> hops g a x \<le> Suc (hops g a y)"
    and "x \<in> V \<Longrightarrow> x \<notin> set Q \<Longrightarrow> y \<in> set Q \<Longrightarrow> hops g a x \<le> hops g a y"
    and "x \<in> V \<Longrightarrow> x \<notin> set Q \<Longrightarrow> E x \<Longrightarrow> adjacent g x y \<Longrightarrow> y \<in> V"
proof -
  from assms have 1: "a \<in> V" and 2: "set Q \<subseteq> V" and 3: "distinct Q"
    and 4: "\<forall>x \<in> V. \<exists>n. walk g a n x"
    and 5: "sorted (map (hops g a) Q)"
    and 6: "\<forall>x \<in> set Q. \<forall>y \<in> set Q. hops g a x \<le> Suc (hops g a y)"
    and 7: "\<forall>x \<in> V - set Q. \<forall>y \<in> set Q. hops g a x \<le> hops g a y"
    and 8: "\<forall>x \<in> V - set Q. E x \<longrightarrow> (\<forall>y. adjacent g x y \<longrightarrow> y \<in> V)"
    unfolding bfs_inv_def by simp_all
  show "a \<in> V" "set Q \<subseteq> V" "distinct Q" "sorted (map (hops g a) Q)"
    by (rule 1 2 3 5)+
  show "x \<in> V \<Longrightarrow> \<exists>n. walk g a n x"
    using 4 by (rule bspec)
  show "x \<in> set Q \<Longrightarrow> y \<in> set Q \<Longrightarrow> hops g a x \<le> Suc (hops g a y)"
    using 6 by blast
  show "x \<in> V \<Longrightarrow> x \<notin> set Q \<Longrightarrow> y \<in> set Q \<Longrightarrow> hops g a x \<le> hops g a y"
    using 7 by blast
  show "x \<in> V \<Longrightarrow> x \<notin> set Q \<Longrightarrow> E x \<Longrightarrow> adjacent g x y \<Longrightarrow> y \<in> V"
    using 8 by blast
qed

lemma bfs_invI:
  assumes "a \<in> V" and "set Q \<subseteq> V" and "distinct Q"
    and "\<And>x. x \<in> V \<Longrightarrow> \<exists>n. walk g a n x"
    and "sorted (map (hops g a) Q)"
    and "\<And>x y. x \<in> set Q \<Longrightarrow> y \<in> set Q \<Longrightarrow> hops g a x \<le> Suc (hops g a y)"
    and "\<And>x y. x \<in> V \<Longrightarrow> x \<notin> set Q \<Longrightarrow> y \<in> set Q \<Longrightarrow> hops g a x \<le> hops g a y"
    and "\<And>x y. x \<in> V \<Longrightarrow> x \<notin> set Q \<Longrightarrow> E x \<Longrightarrow> adjacent g x y \<Longrightarrow> y \<in> V"
  shows "bfs_inv g a E V Q"
  unfolding bfs_inv_def
proof (intro conjI ballI impI allI)
  show "a \<in> V" "set Q \<subseteq> V" "distinct Q" "sorted (map (hops g a) Q)"
    by (rule assms)+
  show "\<exists>n. walk g a n x" if "x \<in> V" for x
    using that by (rule assms(4))
  show "hops g a x \<le> Suc (hops g a y)" if "x \<in> set Q" "y \<in> set Q" for x y
    using that by (rule assms(6))
  show "hops g a x \<le> hops g a y" if "x \<in> V - set Q" "y \<in> set Q" for x y
    using that assms(7) [of x y] by simp
  show "y \<in> V" if "x \<in> V - set Q" "E x" "adjacent g x y" for x y
    using that assms(8) [of x y] by simp
qed

lemma bfs_inv_head_least:
  assumes inv: "bfs_inv g a E V (c # Q)" and x: "x \<in> set (c # Q)"
  shows "hops g a c \<le> hops g a x" and "hops g a x \<le> Suc (hops g a c)"
proof -
  have s: "sorted (map (hops g a) (c # Q))"
    using inv by (rule bfs_invD(5))
  show "hops g a c \<le> hops g a x"
  proof (cases "x = c")
    case True
    then show ?thesis by simp
  next
    case False
    with x have "x \<in> set Q" by simp
    with s show ?thesis by simp
  qed
  have "c \<in> set (c # Q)" by simp
  with x show "hops g a x \<le> Suc (hops g a c)"
    by (rule bfs_invD(6) [OF inv])
qed

lemma bfs_inv_discover:
  assumes inv: "bfs_inv g a E V (c # Q)" and dw: "downward g a E" and e: "E c"
    and adj: "adjacent g c y" and new: "y \<notin> V"
  shows "hops g a y = Suc (hops g a c)" and "bfs_inv g a E (insert y V) (c # Q @ [y])"
proof -
  have cV: "c \<in> V"
    using bfs_invD(2) [OF inv] by simp
  then obtain n where n: "walk g a n c"
    using bfs_invD(4) [OF inv] by blast
  have le: "hops g a y \<le> Suc (hops g a c)"
    using hops_adjacent [OF n adj] .
  have wy: "walk g a (Suc (hops g a c)) y"
    using walk_step [OF walk_hops [OF n] adj] .
  have "\<not> hops g a y \<le> hops g a c"
  proof
    assume "hops g a y \<le> hops g a c"
    from bfs_inv_near [OF inv dw e walk_hops [OF wy] this] new show False by simp
  qed
  with le show h: "hops g a y = Suc (hops g a c)" by simp
  have yq: "y \<notin> set (c # Q)"
    using bfs_invD(2) [OF inv] new by blast
  show "bfs_inv g a E (insert y V) (c # Q @ [y])"
  proof (rule bfs_invI)
    show "a \<in> insert y V"
      using bfs_invD(1) [OF inv] by simp
    show "set (c # Q @ [y]) \<subseteq> insert y V"
      using bfs_invD(2) [OF inv] by auto
    show "distinct (c # Q @ [y])"
      using bfs_invD(3) [OF inv] yq by auto
    show "\<exists>n. walk g a n x" if "x \<in> insert y V" for x
    proof (cases "x = y")
      case True
      with wy show ?thesis by blast
    next
      case False
      with that have "x \<in> V" by simp
      then show ?thesis by (rule bfs_invD(4) [OF inv])
    qed
    have "sorted (map (hops g a) (c # Q) @ [hops g a y])"
      unfolding sorted_append
    proof (intro conjI ballI)
      show "sorted (map (hops g a) (c # Q))" using inv by (rule bfs_invD(5))
      show "sorted [hops g a y]" by simp
      fix u v assume "u \<in> set (map (hops g a) (c # Q))" "v \<in> set [hops g a y]"
      then obtain x where x: "x \<in> set (c # Q)" and uv: "u = hops g a x" "v = hops g a y" by auto
      from bfs_inv_head_least(2) [OF inv x] show "u \<le> v"
        by (simp add: uv h)
    qed
    then show "sorted (map (hops g a) (c # Q @ [y]))" by simp
    show "hops g a x \<le> Suc (hops g a z)"
      if "x \<in> set (c # Q @ [y])" "z \<in> set (c # Q @ [y])" for x z
    proof -
      have ux: "hops g a x \<le> Suc (hops g a c)"
      proof (cases "x = y")
        case True
        then show ?thesis by (simp add: h)
      next
        case False
        with that(1) have "x \<in> set (c # Q)" by simp
        then show ?thesis by (rule bfs_inv_head_least(2) [OF inv])
      qed
      have lz: "hops g a c \<le> hops g a z"
      proof (cases "z = y")
        case True
        then show ?thesis by (simp add: h)
      next
        case False
        with that(2) have "z \<in> set (c # Q)" by simp
        then show ?thesis by (rule bfs_inv_head_least(1) [OF inv])
      qed
      from ux lz show ?thesis by simp
    qed
    show "hops g a x \<le> hops g a z"
      if "x \<in> insert y V" "x \<notin> set (c # Q @ [y])" "z \<in> set (c # Q @ [y])" for x z
    proof -
      from that(1,2) have x: "x \<in> V" "x \<notin> set (c # Q)" by auto
      have "c \<in> set (c # Q)" by simp
      with x have xc: "hops g a x \<le> hops g a c"
        by (rule bfs_invD(7) [OF inv])
      have lz: "hops g a c \<le> hops g a z"
      proof (cases "z = y")
        case True
        then show ?thesis by (simp add: h)
      next
        case False
        with that(3) have "z \<in> set (c # Q)" by simp
        then show ?thesis by (rule bfs_inv_head_least(1) [OF inv])
      qed
      from xc lz show ?thesis by simp
    qed
    show "z \<in> insert y V"
      if "x \<in> insert y V" "x \<notin> set (c # Q @ [y])" "E x" "adjacent g x z" for x z
    proof -
      from that(1,2) have "x \<in> V" "x \<notin> set (c # Q)" by auto
      from bfs_invD(8) [OF inv this that(3,4)] show ?thesis by simp
    qed
  qed
qed

lemma bfs_inv_finish:
  assumes inv: "bfs_inv g a E V (c # Q)" and fin: "E c \<Longrightarrow> set (neighbors g c) \<subseteq> V"
  shows "bfs_inv g a E V Q"
proof (rule bfs_invI)
  show "a \<in> V" using inv by (rule bfs_invD(1))
  show "set Q \<subseteq> V" using bfs_invD(2) [OF inv] by simp
  show "distinct Q" using bfs_invD(3) [OF inv] by simp
  show "\<exists>n. walk g a n x" if "x \<in> V" for x
    using that by (rule bfs_invD(4) [OF inv])
  show "sorted (map (hops g a) Q)"
    using bfs_invD(5) [OF inv] by simp
  show "hops g a x \<le> Suc (hops g a y)" if "x \<in> set Q" "y \<in> set Q" for x y
  proof -
    from that have "x \<in> set (c # Q)" "y \<in> set (c # Q)" by simp_all
    then show ?thesis by (rule bfs_invD(6) [OF inv])
  qed
  show "hops g a x \<le> hops g a y" if "x \<in> V" "x \<notin> set Q" "y \<in> set Q" for x y
  proof (cases "x = c")
    case True
    from that(3) have "y \<in> set (c # Q)" by simp
    from bfs_inv_head_least(1) [OF inv this] True show ?thesis by simp
  next
    case False
    with that have "x \<in> V" "x \<notin> set (c # Q)" "y \<in> set (c # Q)" by simp_all
    then show ?thesis by (rule bfs_invD(7) [OF inv])
  qed
  show "y \<in> V" if "x \<in> V" "x \<notin> set Q" "E x" "adjacent g x y" for x y
  proof (cases "x = c")
    case True
    with that(3) fin have "set (neighbors g c) \<subseteq> V" by simp
    with that(4) True show ?thesis
      by (auto simp: set_neighbors)
  next
    case False
    with that have "x \<in> V" "x \<notin> set (c # Q)" by simp_all
    from bfs_invD(8) [OF inv this that(3,4)] show ?thesis .
  qed
qed

lemma bfs_inv_closed:
  assumes inv: "bfs_inv g a (\<lambda>x. True) V []" and w: "walk g a n x"
  shows "x \<in> V"
  using w
proof (induction rule: walk.induct)
  case walk_start
  show ?case using inv by (rule bfs_invD(1))
next
  case (walk_step n x y)
  have "x \<notin> set []" by simp
  from bfs_invD(8) [OF inv walk_step.IH this TrueI walk_step.hyps(2)] show ?case .
qed

section \<open>\<open>findPath\<close> returns a shortest chain\<close>

definition parents_ok :: "Graph \<Rightarrow> string \<Rightarrow> string set \<Rightarrow> (string \<rightharpoonup> string) \<Rightarrow> bool" where
  "parents_ok g a V P \<longleftrightarrow>
     P a = None \<and>
     (\<forall>x \<in> V. x \<noteq> a \<longrightarrow>
        (\<exists>p \<in> V. P x = Some p \<and> adjacent g p x \<and> hops g a x = Suc (hops g a p)))"

lemma reconstruct_chain:
  assumes ok: "parents_ok g a V P"
  shows "x \<in> V \<Longrightarrow>
    \<exists>pre. reconstruct P x (x # r) = Some (pre @ x # r) \<and> connects g (pre @ [x]) a x \<and>
      length pre = hops g a x"
proof (induction "hops g a x" arbitrary: x r)
  case 0
  show ?case
  proof (cases "x = a")
    case True
    have "P a = None" using ok by (simp add: parents_ok_def)
    then have "reconstruct P a (a # r) = Some (a # r)"
      by (subst reconstruct.simps) simp
    moreover have "connects g [a] a a"
      by (simp add: connects_def)
    ultimately show ?thesis
      using True by (intro exI [of _ "[]"]) (simp add: hops_self)
  next
    case False
    with ok "0.prems" obtain p where "hops g a x = Suc (hops g a p)"
      unfolding parents_ok_def by blast
    with "0.hyps" show ?thesis by simp
  qed
next
  case (Suc n)
  then have "x \<noteq> a"
    by (auto simp: hops_self)
  with ok Suc.prems obtain p where p: "p \<in> V" "P x = Some p" "adjacent g p x"
      "hops g a x = Suc (hops g a p)"
    unfolding parents_ok_def by blast
  with Suc.hyps(2) have "n = hops g a p" by simp
  from Suc.hyps(1) [OF this p(1), of "x # r"]
  obtain pre where pre: "reconstruct P p (p # x # r) = Some (pre @ p # x # r)"
      "connects g (pre @ [p]) a p" "length pre = hops g a p"
    by blast
  have 1: "reconstruct P x (x # r) = Some ((pre @ [p]) @ x # r)"
    using pre(1) p(2) by (subst reconstruct.simps) simp
  have c1: "chain g (pre @ [p])"
    using pre(2) by (simp add: connects_def)
  have "adjacent g (last (pre @ [p])) x"
    using p(3) by simp
  with c1 have "chain g ((pre @ [p]) @ [x])"
    by (rule chain_snoc)
  moreover have "hd ((pre @ [p]) @ [x]) = a"
    using pre(2) by (cases pre) (simp_all add: connects_def)
  ultimately have 2: "connects g ((pre @ [p]) @ [x]) a x"
    by (simp add: connects_def)
  have 3: "length (pre @ [p]) = hops g a x"
    using pre(3) p(4) by simp
  from 1 2 3 show ?case
    by (intro exI [of _ "pre @ [p]"] conjI)
qed

definition found_shortest :: "Graph \<Rightarrow> string \<Rightarrow> string \<Rightarrow> string list option \<Rightarrow> bool" where
  "found_shortest g a t r \<longleftrightarrow>
     (\<exists>p. r = Some p \<and> connects g p a t \<and> length p = Suc (hops g a t))"

definition path_inv :: "Graph \<Rightarrow> string \<Rightarrow> string \<Rightarrow> string set \<Rightarrow> (string \<rightharpoonup> string) \<Rightarrow> string list \<Rightarrow> bool" where
  "path_inv g a t V P Q \<longleftrightarrow> bfs_inv g a (\<lambda>x. True) V Q \<and> t \<notin> V \<and> parents_ok g a V P"

lemma downward_True: "downward g a (\<lambda>x. True)"
  by (simp add: downward_def)

lemma parents_ok_insert:
  assumes ok: "parents_ok g a V P" and c: "c \<in> V" and a: "a \<in> V" and new: "y \<notin> V"
    and adj: "adjacent g c y" and h: "hops g a y = Suc (hops g a c)"
  shows "parents_ok g a (insert y V) (P(y \<mapsto> c))"
  unfolding parents_ok_def
proof (intro conjI ballI impI)
  from a new have "y \<noteq> a" by blast
  then show "(P(y \<mapsto> c)) a = None"
    using ok by (simp add: parents_ok_def)
next
  fix x assume x: "x \<in> insert y V" "x \<noteq> a"
  show "\<exists>p \<in> insert y V. (P(y \<mapsto> c)) x = Some p \<and> adjacent g p x \<and> hops g a x = Suc (hops g a p)"
  proof (cases "x = y")
    case True
    with c adj h show ?thesis by (intro bexI [of _ c]) simp_all
  next
    case False
    with x have "x \<in> V" by simp
    with ok x(2) obtain p where "p \<in> V" "P x = Some p" "adjacent g p x" "hops g a x = Suc (hops g a p)"
      unfolding parents_ok_def by blast
    with False show ?thesis by (intro bexI [of _ p]) simp_all
  qed
qed

definition scan_ok ::
  "Graph \<Rightarrow> string \<Rightarrow> string \<Rightarrow> string \<Rightarrow> string set \<Rightarrow>
   string list option + string set \<times> (string \<rightharpoonup> string) \<times> string list \<Rightarrow> bool" where
  "scan_ok g a t c U res \<longleftrightarrow>
     (case res of
        Inl r \<Rightarrow> found_shortest g a t r
      | Inr st \<Rightarrow> path_inv g a t (fst st) (fst (snd st)) (c # snd (snd st)) \<and> fst st = U)"

lemma scan_ok_Inr:
  assumes "scan_ok g a t c U (Inr (V', P', Q'))"
  shows "path_inv g a t V' P' (c # Q')" and "V' = U"
  using assms by (auto simp: scan_ok_def)

lemma scan_neighbors_inv:
  assumes "path_inv g a t V P (c # Q)" and "\<forall>y \<in> set ns. adjacent g c y"
  shows "scan_ok g a t c (V \<union> set ns) (scan_neighbors t c (V, P, Q) ns)"
  using assms
proof (induction ns arbitrary: V P Q)
  case Nil
  then show ?case by (simp add: scan_ok_def)
next
  case (Cons y ns)
  from Cons.prems(1) have inv: "bfs_inv g a (\<lambda>x. True) V (c # Q)" and t: "t \<notin> V"
    and ok: "parents_ok g a V P"
    by (simp_all add: path_inv_def)
  from Cons.prems(2) have adj: "adjacent g c y" and rest: "\<forall>y \<in> set ns. adjacent g c y"
    by simp_all
  show ?case
  proof (cases "y \<in> V")
    case True
    then have 1: "scan_neighbors t c (V, P, Q) (y # ns) = scan_neighbors t c (V, P, Q) ns"
      by simp
    have 2: "V \<union> set (y # ns) = V \<union> set ns"
      using True by auto
    show ?thesis
      unfolding 1 2 by (rule Cons.IH [OF Cons.prems(1) rest])
  next
    case False
    have h: "hops g a y = Suc (hops g a c)"
      and inv': "bfs_inv g a (\<lambda>x. True) (insert y V) (c # Q @ [y])"
      using bfs_inv_discover [OF inv downward_True TrueI adj False] by simp_all
    have cV: "c \<in> V" using bfs_invD(2) [OF inv] by simp
    have aV: "a \<in> V" using inv by (rule bfs_invD(1))
    have ok': "parents_ok g a (insert y V) (P(y \<mapsto> c))"
      using ok cV aV False adj h by (rule parents_ok_insert)
    show ?thesis
    proof (cases "y = t")
      case True
      have "t \<in> insert y V" using True by simp
      from reconstruct_chain [OF ok' this, of "[]"]
      obtain pre where pre: "reconstruct (P(y \<mapsto> c)) t [t] = Some (pre @ [t])"
          "connects g (pre @ [t]) a t" "length pre = hops g a t"
        by auto
      then have "found_shortest g a t (reconstruct (P(y \<mapsto> c)) t [t])"
        by (simp add: found_shortest_def)
      moreover have "scan_neighbors t c (V, P, Q) (y # ns) = Inl (reconstruct (P(y \<mapsto> c)) t [t])"
        using False True by (simp add: Let_def)
      ultimately show ?thesis by (simp add: scan_ok_def)
    next
      case ny: False
      have pi: "path_inv g a t (insert y V) (P(y \<mapsto> c)) (c # Q @ [y])"
        using inv' ok' t ny by (simp add: path_inv_def)
      have 1: "scan_neighbors t c (V, P, Q) (y # ns) =
          scan_neighbors t c (insert y V, P(y \<mapsto> c), Q @ [y]) ns"
        using False ny by (simp add: Let_def)
      have 2: "V \<union> set (y # ns) = insert y V \<union> set ns"
        by auto
      show ?thesis
        unfolding 1 2 by (rule Cons.IH [OF pi rest])
    qed
  qed
qed

lemma findPath_loop_correct:
  "path_inv g a t V P Q \<Longrightarrow>
   \<exists>r. findPath_loop g t V P Q = Some r \<and>
     (case r of None \<Rightarrow> \<not> (\<exists>n. walk g a n t) | Some p \<Rightarrow> found_shortest g a t (Some p))"
proof (induction g t V P Q rule: findPath_loop.induct)
  case (1 g t V P)
  then have inv: "bfs_inv g a (\<lambda>x. True) V []" and t: "t \<notin> V"
    by (simp_all add: path_inv_def)
  have "\<not> (\<exists>n. walk g a n t)"
    using bfs_inv_closed [OF inv] t by blast
  then show ?case
    by (simp add: findPath_loop.simps)
next
  case (2 g t V P c Q)
  have adj: "\<forall>y \<in> set (neighbors g c). adjacent g c y"
    by (simp add: set_neighbors)
  note sc = scan_neighbors_inv [OF "2.prems" adj]
  show ?case
  proof (cases "scan_neighbors t c (V, P, Q) (neighbors g c)")
    case (Inl r)
    with sc have "found_shortest g a t r" by (simp add: scan_ok_def)
    then obtain p where p: "r = Some p" "found_shortest g a t (Some p)"
      by (auto simp: found_shortest_def)
    have "findPath_loop g t V P (c # Q) = map_option Some r"
      by (simp add: findPath_loop.simps Inl)
    with p show ?thesis by simp
  next
    case (Inr st)
    obtain V' P' Q' where st: "st = (V', P', Q')" by (cases st) auto
    note sc' = sc [unfolded Inr st]
    have pi: "path_inv g a t V' P' (c # Q')" and V': "V' = V \<union> set (neighbors g c)"
      using scan_ok_Inr [OF sc'] .
    from pi have inv: "bfs_inv g a (\<lambda>x. True) V' (c # Q')" and t: "t \<notin> V'"
      and ok: "parents_ok g a V' P'"
      by (simp_all add: path_inv_def)
    have "set (neighbors g c) \<subseteq> V'"
      using V' by simp
    then have "bfs_inv g a (\<lambda>x. True) V' Q'"
      by (intro bfs_inv_finish [OF inv])
    with t ok have "path_inv g a t V' P' Q'"
      by (simp add: path_inv_def)
    from "2.IH" [OF Inr [unfolded st] refl refl this]
    have "\<exists>r. findPath_loop g t V' P' Q' = Some r \<and>
     (case r of None \<Rightarrow> \<not> (\<exists>n. walk g a n t) | Some p \<Rightarrow> found_shortest g a t (Some p))" .
    moreover have "findPath_loop g t V P (c # Q) = findPath_loop g t V' P' Q'"
      by (simp add: findPath_loop.simps Inr st)
    ultimately show ?thesis by simp
  qed
qed

lemma connects_walk: "connects g q a b \<Longrightarrow> \<exists>n. walk g a n b"
  using chain_walk [of g q] by (auto simp: connects_def)

lemma connects_length: "connects g q a b \<Longrightarrow> Suc (hops g a b) \<le> length q"
proof -
  assume c: "connects g q a b"
  then have "q \<noteq> []" by (auto simp: connects_def)
  with connects_hops [OF c] show ?thesis
    by (cases q) simp_all
qed

lemma findPath_known:
  assumes "a \<noteq> b" and "has (nodes g) a" and "has (nodes g) b"
  shows "(\<exists>p. findPath g a b = Some (Some p) \<and> connects g p a b \<and>
            (\<forall>q. connects g q a b \<longrightarrow> length p \<le> length q)) \<or>
         (findPath g a b = Some None \<and> \<not> (\<exists>q. connects g q a b))"
proof -
  have "parents_ok g a {a} Map.empty"
    by (simp add: parents_ok_def)
  with assms(1) have "path_inv g a b {a} Map.empty [a]"
    by (simp add: path_inv_def bfs_inv_init)
  from findPath_loop_correct [OF this]
  obtain r where r: "findPath_loop g b {a} Map.empty [a] = Some r"
    and c: "case r of None \<Rightarrow> \<not> (\<exists>n. walk g a n b) | Some p \<Rightarrow> found_shortest g a b (Some p)"
    by blast
  have f: "findPath g a b = Some r"
    using assms r by (simp add: findPath_def)
  show ?thesis
  proof (cases r)
    case None
    with c have "\<not> (\<exists>n. walk g a n b)" by simp
    then have "\<not> (\<exists>q. connects g q a b)"
      using connects_walk by blast
    with f None show ?thesis by simp
  next
    case (Some p)
    with c have p: "connects g p a b" "length p = Suc (hops g a b)"
      by (simp_all add: found_shortest_def)
    have "\<forall>q. connects g q a b \<longrightarrow> length p \<le> length q"
      using connects_length [of g _ a b] p(2) by simp
    with f Some p(1) show ?thesis by simp
  qed
qed

text \<open>
  Claim C3.  \<open>findPath(a, a)\<close> returns \<open>[a]\<close>, whether or not \<open>a\<close> is a node.  For distinct
  known nodes \<open>a\<close> and \<open>b\<close>, \<open>findPath\<close> returns: either a chain of the undirected view from
  \<open>a\<close> to \<open>b\<close> that no chain from \<open>a\<close> to \<open>b\<close> undercuts in length, so that its hop count is
  the shortest distance; or \<open>null\<close>, and then no chain connects them.  It returns \<open>null\<close>
  exactly when no chain connects them.
\<close>

theorem findPath_shortest:
  "(a = b \<longrightarrow> findPath g a b = Some (Some [a])) \<and>
   (a \<noteq> b \<and> has (nodes g) a \<and> has (nodes g) b \<longrightarrow>
      ((\<exists>p. findPath g a b = Some (Some p) \<and> connects g p a b \<and>
            (\<forall>q. connects g q a b \<longrightarrow> length p \<le> length q)) \<or>
       (findPath g a b = Some None \<and> \<not> (\<exists>q. connects g q a b)))) \<and>
   (a \<noteq> b \<and> has (nodes g) a \<and> has (nodes g) b \<longrightarrow>
      (findPath g a b = Some None \<longleftrightarrow> \<not> (\<exists>q. connects g q a b)))"
proof (intro conjI impI)
  assume "a = b"
  then show "findPath g a b = Some (Some [a])"
    by (simp add: findPath_def)
next
  assume "a \<noteq> b \<and> has (nodes g) a \<and> has (nodes g) b"
  then show "(\<exists>p. findPath g a b = Some (Some p) \<and> connects g p a b \<and>
            (\<forall>q. connects g q a b \<longrightarrow> length p \<le> length q)) \<or>
       (findPath g a b = Some None \<and> \<not> (\<exists>q. connects g q a b))"
    by (intro findPath_known) simp_all
next
  assume "a \<noteq> b \<and> has (nodes g) a \<and> has (nodes g) b"
  then have "(\<exists>p. findPath g a b = Some (Some p) \<and> connects g p a b \<and>
            (\<forall>q. connects g q a b \<longrightarrow> length p \<le> length q)) \<or>
       (findPath g a b = Some None \<and> \<not> (\<exists>q. connects g q a b))"
    by (intro findPath_known) simp_all
  then show "findPath g a b = Some None \<longleftrightarrow> \<not> (\<exists>q. connects g q a b)"
    by auto
qed

theorem findPath_shortest_witness:
  "findPath example_graph ''Z'' ''Z'' = Some (Some [''Z'']) \<and>
   findPath example_graph ''B'' ''C'' = Some (Some [''B'', ''A'', ''C'']) \<and>
   connects example_graph [''B'', ''A'', ''C''] ''B'' ''C'' \<and>
   findPath failing_graph ''D'' ''Y'' = Some None \<and>
   \<not> (\<exists>q. connects failing_graph q ''D'' ''Y'')"
proof -
  from findPath_shortest [of "''Z''" "''Z''" example_graph]
  have 1: "findPath example_graph ''Z'' ''Z'' = Some (Some [''Z''])"
    by simp
  have e: "findPath example_graph ''B'' ''C'' = Some (Some [''B'', ''A'', ''C''])"
    by code_simp
  have h: "''B'' \<noteq> ''C'' \<and> has (nodes example_graph) ''B'' \<and> has (nodes example_graph) ''C''"
    by (simp add: example_graph_def has_def)
  from findPath_shortest [of "''B''" "''C''" example_graph] h
  have "(\<exists>p. findPath example_graph ''B'' ''C'' = Some (Some p) \<and>
          connects example_graph p ''B'' ''C'' \<and>
          (\<forall>q. connects example_graph q ''B'' ''C'' \<longrightarrow> length p \<le> length q)) \<or>
        (findPath example_graph ''B'' ''C'' = Some None \<and>
          \<not> (\<exists>q. connects example_graph q ''B'' ''C''))"
    by blast
  with e have 2: "connects example_graph [''B'', ''A'', ''C''] ''B'' ''C''"
    by auto
  have n: "findPath failing_graph ''D'' ''Y'' = Some None"
    by code_simp
  have h': "''D'' \<noteq> ''Y'' \<and> has (nodes failing_graph) ''D'' \<and> has (nodes failing_graph) ''Y''"
    by (simp add: failing_graph_def has_def)
  from findPath_shortest [of "''D''" "''Y''" failing_graph] h'
  have "findPath failing_graph ''D'' ''Y'' = Some None \<longleftrightarrow>
      \<not> (\<exists>q. connects failing_graph q ''D'' ''Y'')"
    by blast
  with n have 3: "\<not> (\<exists>q. connects failing_graph q ''D'' ''Y'')"
    by simp
  from 1 e 2 n 3 show ?thesis
    by simp
qed

section \<open>\<open>queryRelated\<close> records minimum distances\<close>



















section \<open>The path tool tells an unknown name from a missing path\<close>











end
